theory Spec2Isabelle
  imports Main "HOL-Library.Word" "HOL-Library.Log_Nat"
begin

section \<open>The MNIST loader of react-tfjs-playground\<close>

text \<open>
  The development embeds the loader module (\<^verbatim>\<open>loadHeaderValues\<close>, \<^verbatim>\<open>loadImages\<close>,
  \<^verbatim>\<open>loadLabels\<close> and the class \<^verbatim>\<open>MnistDataset\<close>). Exceptions are values of a sum
  type, the object of the class is a record that is passed in and returned, and every loop is
  a recursive function with the loop variables as arguments.
\<close>

subsection \<open>Platform: Buffer, numbers, typed arrays\<close>

type_synonym buffer = "8 word list"

text \<open>
  The exceptions that can cross the module: \<^verbatim>\<open>RangeError\<close> (a Buffer read or a typed-array
  \<^verbatim>\<open>set\<close> out of range), \<^verbatim>\<open>TypeError\<close> (a method called on \<^verbatim>\<open>undefined\<close>, or
  \<^verbatim>\<open>set\<close> given \<^verbatim>\<open>undefined\<close>), the rejection of \<^verbatim>\<open>fetchResource\<close>, and the error
  of a failed assertion inside the tensor library.
\<close>

datatype error = RangeError | TypeError | FetchError | TfError

text \<open>
  \<^verbatim>\<open>buffer.readUInt8(offset)\<close>: the byte at \<open>offset\<close> as a number, \<^verbatim>\<open>RangeError\<close> when
  \<open>offset + 1\<close> exceeds the length.
\<close>

definition readUInt8 :: "buffer \<Rightarrow> nat \<Rightarrow> error + nat" where
  "readUInt8 buffer offset =
     (if offset + 1 \<le> length buffer then Inr (unat (buffer ! offset)) else Inl RangeError)"

text \<open>
  \<^verbatim>\<open>buffer.readUInt32BE(offset)\<close>: four bytes, the first the most significant;
  \<^verbatim>\<open>RangeError\<close> when \<open>offset + 4\<close> exceeds the length.
\<close>

definition readUInt32BE :: "buffer \<Rightarrow> nat \<Rightarrow> error + nat" where
  "readUInt32BE buffer offset =
     (if offset + 4 \<le> length buffer
      then Inr (unat (buffer ! offset) * 2 ^ 24 + unat (buffer ! (offset + 1)) * 2 ^ 16
                + unat (buffer ! (offset + 2)) * 2 ^ 8 + unat (buffer ! (offset + 3)))
      else Inl RangeError)"

text \<open>
  Numbers are IEEE 754 doubles and the elements of a \<^verbatim>\<open>Float32Array\<close> are IEEE 754 singles.
  Both are modelled by their exact rational value, and an operation rounds its exact result
  to the nearest value with \<open>p\<close> significant bits (53 for a number, 24 for a
  \<^verbatim>\<open>Float32Array\<close> element), a tie going to the even significand. Overflow to infinity
  and the subnormal range are left out: the magnitudes that a quotient of a byte by 255 takes lie
  between \<open>2\<^sup>-\<^sup>8\<close> and 1.
\<close>

type_synonym float32 = rat

definition round_half_even :: "rat \<Rightarrow> int" where
  "round_half_even x =
     (let f = \<lfloor>x\<rfloor>; r = x - of_int f
      in if r < 1 / 2 then f else if 1 / 2 < r then f + 1 else if even f then f else f + 1)"

text \<open>
  The exponent \<open>e\<close> with \<open>2\<^sup>e \<le> x < 2\<^sup>e\<^sup>+\<^sup>1\<close>, for a positive \<open>x\<close>: the difference of the
  bit lengths of numerator and denominator, or one less.
\<close>

definition binade :: "rat \<Rightarrow> int" where
  "binade x =
     (let (a, b) = quotient_of x;
          d = bitlen a - bitlen b
      in if 2 powi d \<le> x then d else d - 1)"

definition round_to_precision :: "nat \<Rightarrow> rat \<Rightarrow> rat" where
  "round_to_precision p x =
     (if x = 0 then 0
      else let u = 2 powi (binade \<bar>x\<bar> - (int p - 1))
           in sgn x * of_int (round_half_even (\<bar>x\<bar> / u)) * u)"

text \<open>The division \<^verbatim>\<open>x / y\<close> of two numbers, for a divisor that is not zero.\<close>

definition number_div :: "rat \<Rightarrow> rat \<Rightarrow> rat" where
  "number_div x y = round_to_precision 53 (x / y)"

text \<open>
  \<^verbatim>\<open>new Float32Array(n)\<close> and \<^verbatim>\<open>new Int32Array(n)\<close> hold \<open>n\<close> zeros. The assignment
  \<^verbatim>\<open>array[i] = x\<close> converts \<open>x\<close> to the element type and does nothing when \<open>i\<close> is out
  of range, as \<open>list_update\<close> does. The elements of an \<^verbatim>\<open>Int32Array\<close> are 32-bit words,
  read as signed.
\<close>

type_synonym int32 = "32 word"

definition new_Float32Array :: "nat \<Rightarrow> float32 list" where
  "new_Float32Array n = replicate n 0"

definition new_Int32Array :: "nat \<Rightarrow> int32 list" where
  "new_Int32Array n = replicate n 0"

definition Float32Array_store :: "float32 list \<Rightarrow> nat \<Rightarrow> rat \<Rightarrow> float32 list" where
  "Float32Array_store array i x = array[i := round_to_precision 24 x]"

definition Int32Array_store :: "int32 list \<Rightarrow> nat \<Rightarrow> nat \<Rightarrow> int32 list" where
  "Int32Array_store array i x = array[i := of_nat x]"

text \<open>
  \<^verbatim>\<open>target.set(source, offset)\<close> copies \<open>source\<close> into \<open>target\<close> from \<open>offset\<close> on. It
  throws \<^verbatim>\<open>TypeError\<close> when \<open>source\<close> is \<^verbatim>\<open>undefined\<close> (here \<open>None\<close>: the element of an
  array read beyond its length) and \<^verbatim>\<open>RangeError\<close> when the copy would not fit.
\<close>

definition typed_array_set :: "'a list \<Rightarrow> 'a list option \<Rightarrow> nat \<Rightarrow> error + 'a list" where
  "typed_array_set target source offset =
     (case source of
        None \<Rightarrow> Inl TypeError
      | Some src \<Rightarrow>
          if length target < offset + length src then Inl RangeError
          else Inr (take offset target @ src @ drop (offset + length src) target))"

text \<open>\<^verbatim>\<open>xs[i]\<close> on an array: \<^verbatim>\<open>undefined\<close> beyond the length.\<close>

definition array_get :: "'a list \<Rightarrow> nat \<Rightarrow> 'a option" where
  "array_get xs i = (if i < length xs then Some (xs ! i) else None)"

text \<open>
  \<^verbatim>\<open>fetchResource(url, decompress)\<close> belongs to the module \<^verbatim>\<open>utils\<close>. It is a parameter
  of the model: it resolves to the bytes of the resource or rejects.
\<close>

type_synonym fetch = "string \<Rightarrow> bool \<Rightarrow> error + buffer"

subsection \<open>Constants of the module\<close>

definition BASE_URL :: string where "BASE_URL = ''/data''"
definition TRAIN_IMAGES_FILE :: string where
  "TRAIN_IMAGES_FILE = BASE_URL @ ''/train-images-idx3-ubyte.gz''"
definition TRAIN_LABELS_FILE :: string where
  "TRAIN_LABELS_FILE = BASE_URL @ ''/train-labels-idx1-ubyte.gz''"
definition TEST_IMAGES_FILE :: string where
  "TEST_IMAGES_FILE = BASE_URL @ ''/t10k-images-idx3-ubyte.gz''"
definition TEST_LABELS_FILE :: string where
  "TEST_LABELS_FILE = BASE_URL @ ''/t10k-labels-idx1-ubyte.gz''"

definition IMAGE_HEIGHT :: nat where "IMAGE_HEIGHT = 28"
definition IMAGE_WIDTH :: nat where "IMAGE_WIDTH = 28"
definition IMAGE_HEADER_BYTES :: nat where "IMAGE_HEADER_BYTES = 16"
definition IMAGE_FLAT_SIZE :: nat where "IMAGE_FLAT_SIZE = IMAGE_HEIGHT * IMAGE_WIDTH"
definition LABEL_HEADER_BYTES :: nat where "LABEL_HEADER_BYTES = 8"
definition LABEL_RECORD_BYTE :: nat where "LABEL_RECORD_BYTE = 1"
definition LABEL_FLAT_SIZE :: nat where "LABEL_FLAT_SIZE = 10"

subsection \<open>loadHeaderValues\<close>

text \<open>
  The loop \<^verbatim>\<open>for (let i = 0; i < headerLength / 4; i++)\<close>. The division is the division of
  numbers, not of integers, so the test is made over the rationals. The array
  \<^verbatim>\<open>headerValues\<close> starts empty and the assignment \<^verbatim>\<open>headerValues[i] = v\<close> is always made
  at \<open>i = headerValues.length\<close>, where JavaScript extends the array by one element.
\<close>

function loadHeaderValues_loop :: "buffer \<Rightarrow> nat \<Rightarrow> nat list \<Rightarrow> nat \<Rightarrow> error + nat list" where
  "loadHeaderValues_loop buffer headerLength headerValues i =
     (if (of_nat i :: rat) < of_nat headerLength / 4
      then (case readUInt32BE buffer (i * 4) of
              Inl e \<Rightarrow> Inl e
            | Inr v \<Rightarrow> loadHeaderValues_loop buffer headerLength (headerValues @ [v]) (i + 1))
      else Inr headerValues)"
  by pat_completeness auto
termination
proof (relation "measure (\<lambda>(buffer, headerLength, headerValues, i). headerLength - 4 * i)")
  show "wf (measure (\<lambda>(buffer, headerLength, headerValues, i). headerLength - 4 * i))"
    by simp
next
  fix buffer :: buffer and headerLength :: nat and headerValues :: "nat list" and i v :: nat
  assume lt: "(of_nat i :: rat) < of_nat headerLength / 4"
  then have "(of_nat (4 * i) :: rat) < of_nat headerLength"
    by simp
  then have "4 * i < headerLength"
    by (simp only: of_nat_less_iff)
  then show "((buffer, headerLength, headerValues @ [v], i + 1), buffer, headerLength, headerValues, i)
      \<in> measure (\<lambda>(buffer, headerLength, headerValues, i). headerLength - 4 * i)"
    by simp
qed

declare loadHeaderValues_loop.simps [simp del]

definition loadHeaderValues :: "buffer \<Rightarrow> nat \<Rightarrow> error + nat list" where
  "loadHeaderValues buffer headerLength = loadHeaderValues_loop buffer headerLength [] 0"

subsection \<open>loadImages\<close>

text \<open>
  The inner loop \<^verbatim>\<open>for (let i = 0; i < recordBytes; i++)\<close> with its statement
  \<^verbatim>\<open>array[i] = buffer.readUInt8(index++) / 255.0\<close>. It returns the array and the advanced
  \<open>index\<close>.
\<close>

function loadImages_record :: "buffer \<Rightarrow> float32 list \<Rightarrow> nat \<Rightarrow> nat \<Rightarrow> error + float32 list \<times> nat" where
  "loadImages_record buffer array index i =
     (if i < IMAGE_FLAT_SIZE
      then (case readUInt8 buffer index of
              Inl e \<Rightarrow> Inl e
            | Inr v \<Rightarrow>
                loadImages_record buffer
                  (Float32Array_store array i (number_div (of_nat v) 255)) (index + 1) (i + 1))
      else Inr (array, index))"
  by pat_completeness auto
termination
  by (relation "measure (\<lambda>(buffer, array, index, i). IMAGE_FLAT_SIZE - i)") auto

declare loadImages_record.simps [simp del]

lemma loadImages_record_index:
  "loadImages_record buffer array index i = Inr (array', index') \<Longrightarrow>
   index' = index + (IMAGE_FLAT_SIZE - i)"
proof (induction buffer array index i rule: loadImages_record.induct)
  case (1 buffer array index i)
  show ?case
  proof (cases "i < IMAGE_FLAT_SIZE")
    case True
    with "1.prems" obtain v where v: "readUInt8 buffer index = Inr v"
      and rec: "loadImages_record buffer
          (Float32Array_store array i (number_div (of_nat v) 255)) (index + 1) (i + 1)
        = Inr (array', index')"
      by (subst (asm) loadImages_record.simps) (auto split: sum.splits)
    from "1.IH" [OF True v rec] True show ?thesis by simp
  next
    case False
    with "1.prems" show ?thesis
      by (subst (asm) loadImages_record.simps) simp
  qed
qed

text \<open>The loop \<^verbatim>\<open>while (index < buffer.byteLength)\<close>, which pushes one record a turn.\<close>

function loadImages_loop :: "buffer \<Rightarrow> float32 list list \<Rightarrow> nat \<Rightarrow> error + float32 list list" where
  "loadImages_loop buffer images index =
     (if index < length buffer
      then (case loadImages_record buffer (new_Float32Array IMAGE_FLAT_SIZE) index 0 of
              Inl e \<Rightarrow> Inl e
            | Inr (array, index') \<Rightarrow> loadImages_loop buffer (images @ [array]) index')
      else Inr images)"
  by pat_completeness auto
termination
proof (relation "measure (\<lambda>(buffer, images, index). length buffer - index)")
  show "wf (measure (\<lambda>(buffer, images, index). length buffer - index))"
    by simp
next
  fix buffer :: buffer and images :: "float32 list list" and index :: nat
    and x2 :: "float32 list \<times> nat" and array :: "float32 list" and index' :: nat
  assume lt: "index < length buffer"
    and run: "loadImages_record buffer (new_Float32Array IMAGE_FLAT_SIZE) index 0 = Inr x2"
    and x2: "(array, index') = x2"
  from run x2 have "loadImages_record buffer (new_Float32Array IMAGE_FLAT_SIZE) index 0
      = Inr (array, index')"
    by simp
  then have "index' = index + (IMAGE_FLAT_SIZE - 0)"
    by (rule loadImages_record_index)
  then have "index < index'"
    by (simp add: IMAGE_FLAT_SIZE_def IMAGE_HEIGHT_def IMAGE_WIDTH_def)
  with lt show "((buffer, images @ [array], index'), buffer, images, index)
      \<in> measure (\<lambda>(buffer, images, index). length buffer - index)"
    by simp
qed

declare loadImages_loop.simps [simp del]

text \<open>
  \<^verbatim>\<open>loadImages\<close>: the fetch, the header, the records, and the logging line, whose
  \<^verbatim>\<open>headerValues[1].toString()\<close> throws \<^verbatim>\<open>TypeError\<close> if the header has no second value.
  What the logger prints is not modelled.
\<close>

definition loadImages :: "fetch \<Rightarrow> string \<Rightarrow> error + float32 list list" where
  "loadImages fetchResource url =
     (case fetchResource url True of
        Inl e \<Rightarrow> Inl e
      | Inr buffer \<Rightarrow>
          (case loadHeaderValues buffer IMAGE_HEADER_BYTES of
             Inl e \<Rightarrow> Inl e
           | Inr headerValues \<Rightarrow>
               (case loadImages_loop buffer [] IMAGE_HEADER_BYTES of
                  Inl e \<Rightarrow> Inl e
                | Inr images \<Rightarrow>
                    (case array_get headerValues 1 of
                       None \<Rightarrow> Inl TypeError
                     | Some declared \<Rightarrow> Inr images))))"

subsection \<open>loadLabels\<close>

text \<open>
  The same two loops with \<open>recordBytes = LABEL_RECORD_BYTE\<close> and an \<^verbatim>\<open>Int32Array\<close> a
  record, filled by \<^verbatim>\<open>array[i] = buffer.readUInt8(index++)\<close>.
\<close>

function loadLabels_record :: "buffer \<Rightarrow> int32 list \<Rightarrow> nat \<Rightarrow> nat \<Rightarrow> error + int32 list \<times> nat" where
  "loadLabels_record buffer array index i =
     (if i < LABEL_RECORD_BYTE
      then (case readUInt8 buffer index of
              Inl e \<Rightarrow> Inl e
            | Inr v \<Rightarrow> loadLabels_record buffer (Int32Array_store array i v) (index + 1) (i + 1))
      else Inr (array, index))"
  by pat_completeness auto
termination
  by (relation "measure (\<lambda>(buffer, array, index, i). LABEL_RECORD_BYTE - i)") auto

declare loadLabels_record.simps [simp del]

lemma loadLabels_record_index:
  "loadLabels_record buffer array index i = Inr (array', index') \<Longrightarrow>
   index' = index + (LABEL_RECORD_BYTE - i)"
proof (induction buffer array index i rule: loadLabels_record.induct)
  case (1 buffer array index i)
  show ?case
  proof (cases "i < LABEL_RECORD_BYTE")
    case True
    with "1.prems" obtain v where v: "readUInt8 buffer index = Inr v"
      and rec: "loadLabels_record buffer (Int32Array_store array i v) (index + 1) (i + 1)
        = Inr (array', index')"
      by (subst (asm) loadLabels_record.simps) (auto split: sum.splits)
    from "1.IH" [OF True v rec] True show ?thesis by simp
  next
    case False
    with "1.prems" show ?thesis
      by (subst (asm) loadLabels_record.simps) simp
  qed
qed

function loadLabels_loop :: "buffer \<Rightarrow> int32 list list \<Rightarrow> nat \<Rightarrow> error + int32 list list" where
  "loadLabels_loop buffer labels index =
     (if index < length buffer
      then (case loadLabels_record buffer (new_Int32Array LABEL_RECORD_BYTE) index 0 of
              Inl e \<Rightarrow> Inl e
            | Inr (array, index') \<Rightarrow> loadLabels_loop buffer (labels @ [array]) index')
      else Inr labels)"
  by pat_completeness auto
termination
proof (relation "measure (\<lambda>(buffer, labels, index). length buffer - index)")
  show "wf (measure (\<lambda>(buffer, labels, index). length buffer - index))"
    by simp
next
  fix buffer :: buffer and labels :: "int32 list list" and index :: nat
    and x2 :: "int32 list \<times> nat" and array :: "int32 list" and index' :: nat
  assume lt: "index < length buffer"
    and run: "loadLabels_record buffer (new_Int32Array LABEL_RECORD_BYTE) index 0 = Inr x2"
    and x2: "(array, index') = x2"
  from run x2 have "loadLabels_record buffer (new_Int32Array LABEL_RECORD_BYTE) index 0
      = Inr (array, index')"
    by simp
  then have "index' = index + (LABEL_RECORD_BYTE - 0)"
    by (rule loadLabels_record_index)
  then have "index < index'"
    by (simp add: LABEL_RECORD_BYTE_def)
  with lt show "((buffer, labels @ [array], index'), buffer, labels, index)
      \<in> measure (\<lambda>(buffer, labels, index). length buffer - index)"
    by simp
qed

declare loadLabels_loop.simps [simp del]

definition loadLabels :: "fetch \<Rightarrow> string \<Rightarrow> error + int32 list list" where
  "loadLabels fetchResource url =
     (case fetchResource url True of
        Inl e \<Rightarrow> Inl e
      | Inr buffer \<Rightarrow>
          (case loadHeaderValues buffer LABEL_HEADER_BYTES of
             Inl e \<Rightarrow> Inl e
           | Inr headerValues \<Rightarrow>
               (case loadLabels_loop buffer [] LABEL_HEADER_BYTES of
                  Inl e \<Rightarrow> Inl e
                | Inr labels \<Rightarrow>
                    (case array_get headerValues 1 of
                       None \<Rightarrow> Inl TypeError
                     | Some declared \<Rightarrow> Inr labels))))"

subsection \<open>The tensor library\<close>

text \<open>
  A tensor is a shape and a flat, row-major buffer. Of the library, the model has what
  \<^verbatim>\<open>getData_\<close> calls: \<^verbatim>\<open>tf.util.sizeFromShape\<close>; \<^verbatim>\<open>tf.tensor4d\<close>, which refuses a shape
  that is not of rank 4 or does not hold as many values as it is given; \<^verbatim>\<open>tf.tensor1d\<close>;
  \<^verbatim>\<open>tf.oneHot\<close>, which refuses a depth below 2 and writes the on-value 1 at position
  \<open>index\<close> of a row when \<open>0 \<le> index < depth\<close>, leaving a row of off-values 0 otherwise; and
  \<^verbatim>\<open>toFloat\<close>, the conversion of every element to a single.
\<close>

record 'a tensor =
  shape :: "nat list"
  data :: "'a list"

definition sizeFromShape :: "nat list \<Rightarrow> nat" where
  "sizeFromShape shp = foldl (\<lambda>n d. n * d) 1 shp"

definition tensor4d :: "float32 list \<Rightarrow> nat list \<Rightarrow> error + float32 tensor" where
  "tensor4d vals shp =
     (if length shp \<noteq> 4 \<or> sizeFromShape shp \<noteq> length vals then Inl TfError
      else Inr \<lparr>shape = shp, data = vals\<rparr>)"

definition tensor1d :: "int32 list \<Rightarrow> int32 tensor" where
  "tensor1d vals = \<lparr>shape = [length vals], data = vals\<rparr>"

definition oneHot :: "int32 tensor \<Rightarrow> nat \<Rightarrow> error + int32 tensor" where
  "oneHot indices depth =
     (if depth < 2 then Inl TfError
      else Inr \<lparr>shape = shape indices @ [depth],
                data = concat (map (\<lambda>index. map (\<lambda>j. if sint index = int j then 1 else 0) [0..<depth])
                                   (data indices))\<rparr>)"

definition toFloat :: "int32 tensor \<Rightarrow> float32 tensor" where
  "toFloat t = \<lparr>shape = shape t, data = map (\<lambda>w. round_to_precision 24 (of_int (sint w))) (data t)\<rparr>"

subsection \<open>MnistDataset\<close>

record ITrainDataSet =
  xs :: "float32 tensor"
  ys :: "float32 tensor"

text \<open>
  The field \<^verbatim>\<open>dataset\<close> is a tuple of four arrays: train images, train labels, test images
  and test labels, at the indices 0 to 3.
\<close>

type_synonym dataset4 = "float32 list list \<times> int32 list list \<times> float32 list list \<times> int32 list list"

definition dataset0 :: "dataset4 \<Rightarrow> float32 list list" where
  "dataset0 d = (case d of (a, b, c, e) \<Rightarrow> a)"
definition dataset1 :: "dataset4 \<Rightarrow> int32 list list" where
  "dataset1 d = (case d of (a, b, c, e) \<Rightarrow> b)"
definition dataset2 :: "dataset4 \<Rightarrow> float32 list list" where
  "dataset2 d = (case d of (a, b, c, e) \<Rightarrow> c)"
definition dataset3 :: "dataset4 \<Rightarrow> int32 list list" where
  "dataset3 d = (case d of (a, b, c, e) \<Rightarrow> e)"

record MnistDataset =
  dataset :: dataset4
  trainSize :: nat
  testSize :: nat
  trainBatchIndex :: nat
  testBatchIndex :: nat

definition constructor :: MnistDataset where
  "constructor =
     \<lparr>dataset = ([], [], [], []), trainSize = 0, testSize = 0,
      trainBatchIndex = 0, testBatchIndex = 0\<rparr>"

text \<open>
  \<^verbatim>\<open>Promise.all\<close> of the four loads resolves to the four results when all of them resolve, and
  rejects when one of them rejects. The real one rejects with the reason of the load that
  rejects first in time; the model takes the first in the order of the array.
\<close>

definition Promise_all4 ::
  "error + 'a \<Rightarrow> error + 'b \<Rightarrow> error + 'c \<Rightarrow> error + 'd \<Rightarrow> error + 'a \<times> 'b \<times> 'c \<times> 'd" where
  "Promise_all4 p0 p1 p2 p3 =
     (case p0 of Inl e \<Rightarrow> Inl e | Inr a \<Rightarrow>
      (case p1 of Inl e \<Rightarrow> Inl e | Inr b \<Rightarrow>
       (case p2 of Inl e \<Rightarrow> Inl e | Inr c \<Rightarrow>
        (case p3 of Inl e \<Rightarrow> Inl e | Inr d \<Rightarrow> Inr (a, b, c, d)))))"

text \<open>
  \<^verbatim>\<open>loadData\<close> returns how the promise settles and the object after the call: a rejected
  \<^verbatim>\<open>await\<close> throws before the assignment to \<^verbatim>\<open>this.dataset\<close>.
\<close>

definition loadData :: "fetch \<Rightarrow> MnistDataset \<Rightarrow> (error + unit) \<times> MnistDataset" where
  "loadData fetchResource this =
     (case Promise_all4
             (loadImages fetchResource TRAIN_IMAGES_FILE) (loadLabels fetchResource TRAIN_LABELS_FILE)
             (loadImages fetchResource TEST_IMAGES_FILE) (loadLabels fetchResource TEST_LABELS_FILE) of
        Inl e \<Rightarrow> (Inl e, this)
      | Inr d \<Rightarrow>
          (let this1 = this\<lparr>dataset := d\<rparr>;
               this2 = this1\<lparr>trainSize := length (dataset0 (dataset this1))\<rparr>;
               this3 = this2\<lparr>testSize := length (dataset2 (dataset this2))\<rparr>
           in (Inr (), this3)))"

text \<open>
  The loop of \<^verbatim>\<open>getData_\<close>: \<^verbatim>\<open>images.set(this.dataset[imagesIndex][i], imageOffset)\<close> and
  \<^verbatim>\<open>labels.set(this.dataset[labelsIndex][i], labelOffset)\<close> for \<open>i\<close> from 0 to \<open>size\<close> (here \<open>size'\<close>).
\<close>

function getData_loop ::
  "float32 list list \<Rightarrow> int32 list list \<Rightarrow> nat \<Rightarrow> float32 list \<Rightarrow> int32 list \<Rightarrow> nat \<Rightarrow> nat \<Rightarrow> nat
   \<Rightarrow> error + float32 list \<times> int32 list" where
  "getData_loop srcImages srcLabels size' images labels imageOffset labelOffset i =
     (if i < size'
      then (case typed_array_set images (array_get srcImages i) imageOffset of
              Inl e \<Rightarrow> Inl e
            | Inr images' \<Rightarrow>
                (case typed_array_set labels (array_get srcLabels i) labelOffset of
                   Inl e \<Rightarrow> Inl e
                 | Inr labels' \<Rightarrow>
                     getData_loop srcImages srcLabels size' images' labels'
                       (imageOffset + IMAGE_FLAT_SIZE) (labelOffset + 1) (i + 1)))
      else Inr (images, labels))"
  by pat_completeness auto
termination
  by (relation "measure (\<lambda>(srcImages, srcLabels, size', images, labels, imageOffset, labelOffset, i).
        size' - i)") auto

declare getData_loop.simps [simp del]

text \<open>
  \<^verbatim>\<open>getData_\<close>, here \<open>getData'\<close>, returns its result and the object after the call; it
  assigns to no field.
\<close>

definition getData' :: "MnistDataset \<Rightarrow> bool \<Rightarrow> (error + ITrainDataSet) \<times> MnistDataset" where
  "getData' this isTrainingData =
     (let srcImages = (if isTrainingData then dataset0 (dataset this) else dataset2 (dataset this));
          srcLabels = (if isTrainingData then dataset1 (dataset this) else dataset3 (dataset this));
          size' = length srcImages;
          imagesShape = [size', IMAGE_HEIGHT, IMAGE_WIDTH, 1];
          images = new_Float32Array (sizeFromShape imagesShape);
          labels = new_Int32Array (sizeFromShape [size', 1])
      in (case getData_loop srcImages srcLabels size' images labels 0 0 0 of
            Inl e \<Rightarrow> Inl e
          | Inr (images', labels') \<Rightarrow>
              (case tensor4d images' imagesShape of
                 Inl e \<Rightarrow> Inl e
               | Inr x \<Rightarrow>
                   (case oneHot (tensor1d labels') LABEL_FLAT_SIZE of
                      Inl e \<Rightarrow> Inl e
                    | Inr y \<Rightarrow> Inr \<lparr>xs = x, ys = toFloat y\<rparr>)),
          this))"

definition getTrainData :: "MnistDataset \<Rightarrow> (error + ITrainDataSet) \<times> MnistDataset" where
  "getTrainData this = getData' this True"

definition getTestData :: "MnistDataset \<Rightarrow> (error + ITrainDataSet) \<times> MnistDataset" where
  "getTestData this = getData' this False"

section \<open>Notions of the properties\<close>

text \<open>
  The value that a slice of bytes denotes when the first byte is the most significant: the
  big-endian reading that the format of the files prescribes.
\<close>

definition big_endian :: "8 word list \<Rightarrow> nat" where
  "big_endian bs = foldl (\<lambda>acc b. acc * 256 + unat b) 0 bs"

text \<open>
  What \<^verbatim>\<open>array[i] = buffer.readUInt8(index++) / 255.0\<close> leaves in the \<^verbatim>\<open>Float32Array\<close>
  for a byte: the quotient of two numbers, rounded to a double by the division and to a
  single by the store.
\<close>

definition float32_of_byte :: "8 word \<Rightarrow> float32" where
  "float32_of_byte b = round_to_precision 24 (number_div (of_nat (unat b)) 255)"


text \<open>
  What \<^verbatim>\<open>array[i] = buffer.readUInt8(index++)\<close> leaves in the \<^verbatim>\<open>Int32Array\<close> for a
  byte. Read as a signed integer, it is the byte.
\<close>

definition int32_of_byte :: "8 word \<Rightarrow> int32" where
  "int32_of_byte b = of_nat (unat b)"

text \<open>
  The images and the labels that \<^verbatim>\<open>getData_\<close> selects, and what every object that
  \<^verbatim>\<open>loadData\<close> has filled satisfies: an image record has \<open>IMAGE_FLAT_SIZE\<close> values and a
  label record \<open>LABEL_RECORD_BYTE\<close>.
\<close>

definition split_images :: "MnistDataset \<Rightarrow> bool \<Rightarrow> float32 list list" where
  "split_images this isTrainingData =
     (if isTrainingData then dataset0 (dataset this) else dataset2 (dataset this))"

definition split_labels :: "MnistDataset \<Rightarrow> bool \<Rightarrow> int32 list list" where
  "split_labels this isTrainingData =
     (if isTrainingData then dataset1 (dataset this) else dataset3 (dataset this))"

definition well_formed :: "MnistDataset \<Rightarrow> bool" where
  "well_formed this =
     ((\<forall>b. \<forall>r \<in> set (split_images this b). length r = IMAGE_FLAT_SIZE)
      \<and> (\<forall>b. \<forall>l \<in> set (split_labels this b). length l = LABEL_RECORD_BYTE))"

text \<open>The row of the label tensor for one label, after \<^verbatim>\<open>toFloat\<close>.\<close>

definition one_hot_row :: "int32 \<Rightarrow> float32 list" where
  "one_hot_row label = map (\<lambda>j. if sint label = int j then 1 else 0) [0..<LABEL_FLAT_SIZE]"

text \<open>
  A \<^verbatim>\<open>fetchResource\<close> for the examples: it serves the listed files and rejects any other
  URL.
\<close>

definition fetch_of :: "(string \<times> buffer) list \<Rightarrow> fetch" where
  "fetch_of files url decompress =
     (case map_of files url of None \<Rightarrow> Inl FetchError | Some buffer \<Rightarrow> Inr buffer)"

text \<open>
  Four files for the examples: a train image file of one blank image, a train label file that
  is the parameter, and a test image file and a test label file without records.
\<close>

definition example_files :: "buffer \<Rightarrow> (string \<times> buffer) list" where
  "example_files train_labels =
     [(TRAIN_IMAGES_FILE, replicate 16 0 @ replicate 784 0),
      (TRAIN_LABELS_FILE, train_labels),
      (TEST_IMAGES_FILE, replicate 16 0),
      (TEST_LABELS_FILE, replicate 8 0)]"

section \<open>Properties\<close>

subsection \<open>The header\<close>

lemma take4_drop:
  assumes "k + 4 \<le> length bs"
  shows "take 4 (drop k bs) = [bs ! k, bs ! (k + 1), bs ! (k + 2), bs ! (k + 3)]"
proof -
  have "drop k bs = bs ! k # bs ! (k + 1) # bs ! (k + 2) # bs ! (k + 3) # drop (k + 4) bs"
    using assms by (simp add: Cons_nth_drop_Suc numeral_eq_Suc)
  then show ?thesis by simp
qed

lemma readUInt32BE_big_endian:
  "offset + 4 \<le> length buffer \<Longrightarrow>
   readUInt32BE buffer offset = Inr (big_endian (take 4 (drop offset buffer)))"
  by (simp add: readUInt32BE_def take4_drop big_endian_def)

lemma header_test: "((of_nat i :: rat) < of_nat (4 * n) / 4) = (i < n)"
  by simp

lemma loadHeaderValues_loop_run:
  "4 * n \<le> length buffer \<Longrightarrow> i \<le> n \<Longrightarrow>
   loadHeaderValues_loop buffer (4 * n) headerValues i =
     Inr (headerValues @ map (\<lambda>j. big_endian (take 4 (drop (j * 4) buffer))) [i..<n])"
proof (induction "n - i" arbitrary: i headerValues)
  case 0
  then have "i = n" by simp
  then show ?case
    by (subst loadHeaderValues_loop.simps) (simp only: header_test, simp)
next
  case (Suc d)
  then have lt: "i < n" and le: "i * 4 + 4 \<le> length buffer" by simp_all
  have d: "d = n - (i + 1)" using Suc.hyps(2) by simp
  have step: "loadHeaderValues_loop buffer (4 * n) headerValues i =
      loadHeaderValues_loop buffer (4 * n)
        (headerValues @ [big_endian (take 4 (drop (i * 4) buffer))]) (i + 1)"
    by (subst loadHeaderValues_loop.simps)
       (simp only: header_test lt if_True readUInt32BE_big_endian [OF le] sum.case)
  have "i + 1 \<le> n" using lt by simp
  from Suc.hyps(1) [OF d Suc.prems(1) this] show ?case
    using lt by (simp add: step upt_conv_Cons)
qed

lemma loadHeaderValues_run:
  "4 * n \<le> length buffer \<Longrightarrow>
   loadHeaderValues buffer (4 * n) =
     Inr (map (\<lambda>j. big_endian (take 4 (drop (j * 4) buffer))) [0..<n])"
  unfolding loadHeaderValues_def using loadHeaderValues_loop_run [of n buffer 0 "[]"] by simp

lemma loadHeaderValues_loop_short:
  "i < n \<Longrightarrow> length buffer < 4 * n \<Longrightarrow>
   loadHeaderValues_loop buffer (4 * n) headerValues i = Inl RangeError"
proof (induction "n - i" arbitrary: i headerValues)
  case 0
  then show ?case by simp
next
  case (Suc d)
  note lt = Suc.prems(1)
  show ?case
  proof (cases "i * 4 + 4 \<le> length buffer")
    case True
    have d: "d = n - (i + 1)" using Suc.hyps(2) by simp
    have lt': "i + 1 < n" using True Suc.prems(2) by simp
    show ?thesis
      by (subst loadHeaderValues_loop.simps)
         (simp only: header_test lt if_True readUInt32BE_big_endian [OF True] sum.case
            Suc.hyps(1) [OF d lt' Suc.prems(2)])
  next
    case False
    then have "readUInt32BE buffer (i * 4) = Inl RangeError"
      by (simp add: readUInt32BE_def)
    then show ?thesis
      by (subst loadHeaderValues_loop.simps) (simp only: header_test lt if_True sum.case)
  qed
qed

lemma loadHeaderValues_short:
  "0 < n \<Longrightarrow> length buffer < 4 * n \<Longrightarrow> loadHeaderValues buffer (4 * n) = Inl RangeError"
  unfolding loadHeaderValues_def by (rule loadHeaderValues_loop_short)

text \<open>
  C5. For a byte buffer and a header byte count \<open>h\<close> that is a positive multiple of 4 and at
  most the length of the buffer, \<open>loadHeaderValues\<close> returns exactly \<open>h / 4\<close> values, and
  its \<open>i\<close>-th value is the big-endian unsigned 32-bit reading of the bytes from \<open>4i\<close> up to
  \<open>4i + 4\<close>.
\<close>

theorem loadHeaderValues_big_endian:
  assumes "0 < h" and "h mod 4 = 0" and "h \<le> length buffer"
  shows "\<exists>headerValues. loadHeaderValues buffer h = Inr headerValues
           \<and> length headerValues = h div 4
           \<and> (\<forall>i < h div 4. headerValues ! i = big_endian (take 4 (drop (4 * i) buffer)))"
proof -
  from assms(2) have h: "h = 4 * (h div 4)" by presburger
  with assms(3) have le: "4 * (h div 4) \<le> length buffer" by simp
  have "loadHeaderValues buffer (4 * (h div 4)) =
      Inr (map (\<lambda>j. big_endian (take 4 (drop (j * 4) buffer))) [0..<h div 4])"
    using le by (rule loadHeaderValues_run)
  with h have "loadHeaderValues buffer h =
      Inr (map (\<lambda>j. big_endian (take 4 (drop (j * 4) buffer))) [0..<h div 4])"
    by simp
  then show ?thesis by (simp add: mult.commute)
qed

theorem loadHeaderValues_big_endian_witness:
  "loadHeaderValues [0, 0, 8, 1, 0, 0, 0, 2, 3, 7] 8 = Inr [2049, 2]"
proof -
  let ?buffer = "[0, 0, 8, 1, 0, 0, 0, 2, 3, 7] :: buffer"
  have "\<exists>headerValues. loadHeaderValues ?buffer 8 = Inr headerValues
           \<and> length headerValues = 8 div 4
           \<and> (\<forall>i < 8 div 4. headerValues ! i = big_endian (take 4 (drop (4 * i) ?buffer)))"
    by (rule loadHeaderValues_big_endian) simp_all
  then obtain headerValues where run: "loadHeaderValues ?buffer 8 = Inr headerValues"
    and len: "length headerValues = 2"
    and val: "\<forall>i < 2. headerValues ! i = big_endian (take 4 (drop (4 * i) ?buffer))"
    by auto
  from val have "headerValues ! 0 = 2049" and "headerValues ! 1 = 2"
    by (simp_all add: big_endian_def)
  with len have "headerValues = [2049, 2]"
    by (simp add: list_eq_iff_nth_eq less_Suc_eq numeral_2_eq_2)
  with run show ?thesis by simp
qed


subsection \<open>Rounding\<close>

text \<open>
  \<open>binade\<close> finds the exponent of a positive rational, so \<open>round_to_precision\<close> scales
  by the right power of two.
\<close>

lemma floorlog2_bounds_rat:
  assumes "0 < a"
  shows "2 powi (int (floorlog 2 (nat a)) - 1) \<le> (of_int a :: rat)"
    and "(of_int a :: rat) < 2 powi (int (floorlog 2 (nat a)))"
proof -
  let ?f = "floorlog 2 (nat a)"
  from assms have pos: "0 < nat a" by simp
  have bnd: "2 ^ (?f - 1) \<le> nat a \<and> nat a < 2 ^ ?f"
    by (rule floorlog_bounds [OF pos]) simp
  have f1: "1 \<le> ?f"
    using pos by (simp add: floorlog_def)
  then have ex: "int ?f - 1 = int (?f - 1)" by simp
  from bnd have "(of_nat (2 ^ (?f - 1)) :: rat) \<le> of_nat (nat a)"
    by (simp only: of_nat_le_iff)
  then show "2 powi (int ?f - 1) \<le> (of_int a :: rat)"
    using assms by (simp only: ex power_int_of_nat) simp
  from bnd have "(of_nat (nat a) :: rat) < of_nat (2 ^ ?f)"
    by (simp only: of_nat_less_iff)
  then show "(of_int a :: rat) < 2 powi (int ?f)"
    using assms by simp
qed

lemma binade_bounds:
  assumes "0 < x" and q: "quotient_of x = (a, b)"
  defines "d \<equiv> int (floorlog 2 (nat a)) - int (floorlog 2 (nat b))"
  shows "2 powi (d - 1) < x" and "x < 2 powi (d + 1)"
proof -
  have b: "0 < b" using q by (rule quotient_of_denom_pos)
  have x: "x = of_int a / of_int b" using q by (rule quotient_of_div)
  with assms(1) b have a: "0 < a" by (simp add: zero_less_divide_iff)
  let ?fa = "int (floorlog 2 (nat a))" and ?fb = "int (floorlog 2 (nat b))"
  note A = floorlog2_bounds_rat [OF a] and B = floorlog2_bounds_rat [OF b]
  have bpos: "(0::rat) < of_int b" using b by simp
  have p: "(0::rat) < 2 powi k" for k by (simp add: zero_less_power_int)
  have "(2::rat) powi (d - 1) * of_int b < 2 powi (d - 1) * 2 powi ?fb"
    using B(2) p by (simp only: mult_less_cancel_left_pos)
  also have "\<dots> = 2 powi (d - 1 + ?fb)"
    by (rule power_int_add [symmetric]) simp
  also have "\<dots> = 2 powi (?fa - 1)"
    by (simp add: d_def)
  also have "\<dots> \<le> of_int a" by (rule A(1))
  finally show "2 powi (d - 1) < x"
    using bpos by (simp add: x pos_less_divide_eq)
  have "(of_int a :: rat) < 2 powi ?fa" by (rule A(2))
  also have "\<dots> = 2 powi (d + 1 + (?fb - 1))"
    by (simp add: d_def)
  also have "\<dots> = 2 powi (d + 1) * 2 powi (?fb - 1)"
    by (rule power_int_add) simp
  also have "\<dots> \<le> 2 powi (d + 1) * of_int b"
    using B(1) p by (simp only: mult_le_cancel_left_pos)
  finally show "x < 2 powi (d + 1)"
    using bpos by (simp add: x pos_divide_less_eq)
qed

lemma power2_int_less_cancel: "(2::rat) powi m < 2 powi n \<Longrightarrow> m < n"
  by (rule ccontr) (use power_int_increasing [of n m "2::rat"] in simp)

lemma binade_eq:
  assumes "0 < x" and lo: "2 powi e \<le> x" and hi: "x < 2 powi (e + 1)"
  shows "binade x = e"
proof -
  obtain a b where q: "quotient_of x = (a, b)" by force
  define d where "d = int (floorlog 2 (nat a)) - int (floorlog 2 (nat b))"
  have below: "2 powi (d - 1) < x" and above: "x < 2 powi (d + 1)"
    unfolding d_def using assms(1) q by (rule binade_bounds)+
  have b: "binade x = (if 2 powi d \<le> x then d else d - 1)"
    by (simp add: binade_def q d_def bitlen_def)
  from lo above have "(2::rat) powi e < 2 powi (d + 1)" by simp
  then have ed: "e \<le> d" using power2_int_less_cancel by fastforce
  from below hi have "(2::rat) powi (d - 1) < 2 powi (e + 1)" by simp
  then have de: "d - 1 \<le> e" using power2_int_less_cancel by fastforce
  show ?thesis
  proof (cases "2 powi d \<le> x")
    case True
    with hi have "(2::rat) powi d < 2 powi (e + 1)" by simp
    then have "d \<le> e" using power2_int_less_cancel by fastforce
    with ed True b show ?thesis by simp
  next
    case False
    with lo have "(2::rat) powi e < 2 powi d" by simp
    then have "e < d" by (rule power2_int_less_cancel)
    with de False b show ?thesis by simp
  qed
qed

lemma floor_rat_numeral: "\<lfloor>numeral a / numeral b :: rat\<rfloor> = numeral a div numeral b"
  using floor_divide_of_int_eq [of "numeral a" "numeral b", where ?'a = rat] by simp

lemma round_to_precision_eq:
  assumes "0 < x" and "2 powi e \<le> x" and "x < 2 powi (e + 1)"
  shows "round_to_precision p x =
           of_int (round_half_even (x / 2 powi (e - (int p - 1)))) * 2 powi (e - (int p - 1))"
  using assms by (simp add: round_to_precision_def binade_eq [OF assms] Let_def)

lemma round_to_precision_0: "round_to_precision p 0 = 0"
  by (simp add: round_to_precision_def)

lemma round_to_precision_1: "round_to_precision 24 1 = 1"
  by (subst round_to_precision_eq [where e = 0]) (simp_all add: round_half_even_def Let_def floor_rat_numeral)

lemma number_div_1_255: "number_div 1 255 = 4521260802379792 / 2 ^ 60"
  unfolding number_div_def
  by (subst round_to_precision_eq [where e = "-8"]) (simp_all add: round_half_even_def Let_def floor_rat_numeral)

lemma stored_1_255: "round_to_precision 24 (number_div 1 255) = 8421505 / 2 ^ 31"
  unfolding number_div_1_255
  by (subst round_to_precision_eq [where e = "-8"]) (simp_all add: round_half_even_def Let_def floor_rat_numeral)

lemma number_div_255_255: "number_div 255 255 = 1"
  unfolding number_div_def
  by (subst round_to_precision_eq [where e = 0]) (simp_all add: round_half_even_def Let_def floor_rat_numeral)

text \<open>
  The error of a rounding is at most half a unit in the last place, and a rounding keeps a
  value between 0 and 1 there.
\<close>

lemma binade_correct:
  assumes "0 < x"
  shows "2 powi binade x \<le> x" and "x < 2 powi (binade x + 1)"
proof -
  obtain a b where q: "quotient_of x = (a, b)" by force
  define d where "d = int (floorlog 2 (nat a)) - int (floorlog 2 (nat b))"
  have below: "2 powi (d - 1) < x" and above: "x < 2 powi (d + 1)"
    unfolding d_def using assms q by (rule binade_bounds)+
  have b: "binade x = (if 2 powi d \<le> x then d else d - 1)"
    by (simp add: binade_def q d_def bitlen_def)
  show "2 powi binade x \<le> x"
    using below by (simp add: b)
  show "x < 2 powi (binade x + 1)"
    using above by (simp add: b)
qed

lemma round_half_even_error: "\<bar>of_int (round_half_even y) - y\<bar> \<le> 1 / 2"
proof -
  have "of_int \<lfloor>y\<rfloor> \<le> y" and "y < of_int \<lfloor>y\<rfloor> + 1" by linarith+
  then show ?thesis
    by (auto simp: round_half_even_def Let_def)
qed

lemma round_half_even_le: "y \<le> of_int n \<Longrightarrow> round_half_even y \<le> n"
proof -
  assume le: "y \<le> of_int n"
  have fl: "of_int \<lfloor>y\<rfloor> \<le> y" by linarith
  show ?thesis
  proof (cases "y = of_int n")
    case True
    then show ?thesis by (simp add: round_half_even_def)
  next
    case False
    with le have "y < of_int n" by simp
    then have "\<lfloor>y\<rfloor> < n" by (simp add: floor_less_iff)
    then have "\<lfloor>y\<rfloor> + 1 \<le> n" by simp
    moreover have "\<lfloor>y\<rfloor> \<le> n" using \<open>\<lfloor>y\<rfloor> < n\<close> by simp
    ultimately show ?thesis by (simp add: round_half_even_def Let_def)
  qed
qed

lemma round_half_even_ge: "of_int n \<le> y \<Longrightarrow> n \<le> round_half_even y"
proof -
  assume "of_int n \<le> y"
  then have "n \<le> \<lfloor>y\<rfloor>" by (simp add: le_floor_iff)
  then show ?thesis by (simp add: round_half_even_def Let_def)
qed

lemma round_to_precision_error:
  assumes "0 < x"
  shows "\<bar>round_to_precision p x - x\<bar> \<le> 2 powi (binade x - int p)"
proof -
  define u :: rat where "u = 2 powi (binade x - (int p - 1))"
  have u: "0 < u" by (simp add: u_def zero_less_power_int)
  have r: "round_to_precision p x = of_int (round_half_even (x / u)) * u"
    using assms by (simp add: round_to_precision_def u_def Let_def)
  have "round_to_precision p x - x = (of_int (round_half_even (x / u)) - x / u) * u"
    using u by (simp add: r left_diff_distrib)
  then have "\<bar>round_to_precision p x - x\<bar> = \<bar>of_int (round_half_even (x / u)) - x / u\<bar> * u"
    using u by (simp add: abs_mult)
  also have "\<dots> \<le> 1 / 2 * u"
    using u round_half_even_error [of "x / u"] by (intro mult_right_mono) simp_all
  also have "\<dots> = 2 powi (binade x - int p)"
  proof -
    have "binade x - (int p - 1) = (binade x - int p) + 1" by simp
    then have "u = 2 powi ((binade x - int p) + 1)"
      unfolding u_def by (simp only:)
    also have "\<dots> = 2 powi (binade x - int p) * 2"
      by (rule power_int_add_1) simp
    finally show ?thesis by simp
  qed
  finally show ?thesis .
qed

lemma binade_le_0: "0 < x \<Longrightarrow> x \<le> 1 \<Longrightarrow> binade x \<le> 0"
proof (rule ccontr)
  assume x: "0 < x" "x \<le> 1" and "\<not> binade x \<le> 0"
  then have "0 < binade x" by simp
  then have "(1::rat) < 2 powi binade x" by (intro one_less_power_int) simp_all
  with binade_correct(1) [OF x(1)] x(2) show False by simp
qed

lemma round_to_precision_unit:
  assumes "0 < x" and "x \<le> 1" and "0 < p"
  shows "0 < round_to_precision p x" and "round_to_precision p x \<le> 1"
proof -
  define e where "e = binade x"
  define u :: rat where "u = 2 powi (e - (int p - 1))"
  have u: "0 < u" by (simp add: u_def zero_less_power_int)
  have e: "e \<le> 0" unfolding e_def using assms(1,2) by (rule binade_le_0)
  have r: "round_to_precision p x = of_int (round_half_even (x / u)) * u"
    using assms(1) by (simp add: round_to_precision_def u_def e_def Let_def)
  have n: "0 \<le> int p - 1 - e" using e assms(3) by simp
  have inv: "1 / u = 2 powi (int p - 1 - e)"
    unfolding u_def by (simp add: power_int_minus_divide [symmetric])
  also have "\<dots> = of_int (2 ^ nat (int p - 1 - e))"
    using n by (simp add: power_int_def)
  finally have inv': "1 / u = of_int (2 ^ nat (int p - 1 - e))" .
  have "x / u \<le> 1 / u" using assms(2) u by (simp add: divide_right_mono)
  then have "x / u \<le> of_int (2 ^ nat (int p - 1 - e))" by (simp only: inv')
  then have "round_half_even (x / u) \<le> 2 ^ nat (int p - 1 - e)"
    by (rule round_half_even_le)
  then have "(of_int (round_half_even (x / u)) :: rat) \<le> of_int (2 ^ nat (int p - 1 - e))"
    by (simp only: of_int_le_iff)
  then have "of_int (round_half_even (x / u)) * u \<le> of_int (2 ^ nat (int p - 1 - e)) * u"
    using u by (intro mult_right_mono) simp_all
  also have "\<dots> = 1" using inv' u by (simp add: field_simps)
  finally show "round_to_precision p x \<le> 1" by (simp only: r)
  have "2 powi e \<le> x" unfolding e_def using assms(1) by (rule binade_correct)
  then have "2 powi e / u \<le> x / u" using u by (simp add: divide_right_mono)
  moreover have "2 powi e / u = 2 powi (int p - 1)"
    unfolding u_def by (simp add: power_int_diff [symmetric])
  moreover have "(1::rat) \<le> 2 powi (int p - 1)"
    using assms(3) by (intro one_le_power_int) simp_all
  ultimately have "of_int 1 \<le> x / u" by simp
  then have "1 \<le> round_half_even (x / u)" by (rule round_half_even_ge)
  then have "(0::rat) < of_int (round_half_even (x / u))" by simp
  with u show "0 < round_to_precision p x" by (simp add: r)
qed


lemma power2_int_nonpos_le_1: "e \<le> 0 \<Longrightarrow> (2::rat) powi (e - int p) \<le> 2 powi (- int p)"
  by (intro power_int_increasing) simp_all

lemma stored_quotient_bounds:
  assumes "0 < x" and "x \<le> 1"
  shows "0 < round_to_precision 24 (round_to_precision 53 x)"
    and "round_to_precision 24 (round_to_precision 53 x) \<le> 1"
    and "\<bar>round_to_precision 24 (round_to_precision 53 x) - x\<bar> \<le> 1 / 2 ^ 24 + 1 / 2 ^ 53"
proof -
  let ?d = "round_to_precision 53 x" and ?f = "round_to_precision 24 (round_to_precision 53 x)"
  have d: "0 < ?d" "?d \<le> 1"
    using assms by (rule round_to_precision_unit, simp)+
  show "0 < ?f" and "?f \<le> 1"
    using d by (rule round_to_precision_unit, simp)+
  have "\<bar>?d - x\<bar> \<le> 2 powi (binade x - int 53)"
    using assms(1) by (rule round_to_precision_error)
  also have "\<dots> \<le> 2 powi (- int 53)"
    using binade_le_0 [OF assms] by (rule power2_int_nonpos_le_1)
  finally have e1: "\<bar>?d - x\<bar> \<le> 1 / 2 ^ 53"
    by (simp add: power_int_minus_divide)
  have "\<bar>?f - ?d\<bar> \<le> 2 powi (binade ?d - int 24)"
    using d(1) by (rule round_to_precision_error)
  also have "\<dots> \<le> 2 powi (- int 24)"
    using binade_le_0 [OF d] by (rule power2_int_nonpos_le_1)
  finally have e2: "\<bar>?f - ?d\<bar> \<le> 1 / 2 ^ 24"
    by (simp add: power_int_minus_divide)
  from e1 e2 show "\<bar>?f - x\<bar> \<le> 1 / 2 ^ 24 + 1 / 2 ^ 53"
    by linarith
qed


subsection \<open>The records of an image file\<close>

lemma IMAGE_FLAT_SIZE_pos: "0 < IMAGE_FLAT_SIZE"
  by (simp add: IMAGE_FLAT_SIZE_def IMAGE_HEIGHT_def IMAGE_WIDTH_def)

lemma readUInt8_in: "index < length buffer \<Longrightarrow> readUInt8 buffer index = Inr (unat (buffer ! index))"
  by (simp add: readUInt8_def)

lemma readUInt8_out: "length buffer \<le> index \<Longrightarrow> readUInt8 buffer index = Inl RangeError"
  by (simp add: readUInt8_def)

lemma take_Suc_drop:
  "index < length bs \<Longrightarrow> take (Suc m) (drop index bs) = bs ! index # take m (drop (Suc index) bs)"
  by (simp add: Cons_nth_drop_Suc [symmetric])

lemma loadImages_record_run:
  "i \<le> IMAGE_FLAT_SIZE \<Longrightarrow> length array = IMAGE_FLAT_SIZE \<Longrightarrow>
   index + (IMAGE_FLAT_SIZE - i) \<le> length buffer \<Longrightarrow>
   loadImages_record buffer array index i =
     Inr (take i array @ map float32_of_byte (take (IMAGE_FLAT_SIZE - i) (drop index buffer)),
          index + (IMAGE_FLAT_SIZE - i))"
proof (induction "IMAGE_FLAT_SIZE - i" arbitrary: i array index)
  case 0
  then have "\<not> i < IMAGE_FLAT_SIZE" and "IMAGE_FLAT_SIZE - i = 0" by simp_all
  then show ?case using "0.prems"(2)
    by (subst loadImages_record.simps) simp
next
  case (Suc d)
  then have lt: "i < IMAGE_FLAT_SIZE" and inb: "index < length buffer" by simp_all
  let ?array = "Float32Array_store array i (number_div (of_nat (unat (buffer ! index))) 255)"
  have step: "loadImages_record buffer array index i =
      loadImages_record buffer ?array (index + 1) (i + 1)"
    by (subst loadImages_record.simps) (simp only: lt if_True readUInt8_in [OF inb] sum.case)
  have d: "d = IMAGE_FLAT_SIZE - (i + 1)" using Suc.hyps(2) by simp
  have len: "length ?array = IMAGE_FLAT_SIZE"
    using Suc.prems(2) by (simp add: Float32Array_store_def)
  have rest: "index + 1 + (IMAGE_FLAT_SIZE - (i + 1)) \<le> length buffer"
    using Suc.prems(3) lt by simp
  have tk: "take (i + 1) ?array = take i array @ [float32_of_byte (buffer ! index)]"
    using lt Suc.prems(2)
    by (simp add: Float32Array_store_def float32_of_byte_def take_Suc_conv_app_nth)
  have dr: "take (IMAGE_FLAT_SIZE - i) (drop index buffer) =
      buffer ! index # take (IMAGE_FLAT_SIZE - (i + 1)) (drop (index + 1) buffer)"
    using take_Suc_drop [OF inb, of d] Suc.hyps(2) d by simp
  have "i + 1 \<le> IMAGE_FLAT_SIZE" using lt by simp
  from Suc.hyps(1) [OF d this len rest] show ?case
    using lt by (simp only: step tk dr) simp
qed

lemma loadImages_record_short:
  "i < IMAGE_FLAT_SIZE \<Longrightarrow> length buffer < index + (IMAGE_FLAT_SIZE - i) \<Longrightarrow>
   loadImages_record buffer array index i = Inl RangeError"
proof (induction "IMAGE_FLAT_SIZE - i" arbitrary: i array index)
  case 0
  then show ?case by simp
next
  case (Suc d)
  note lt = Suc.prems(1)
  show ?case
  proof (cases "index < length buffer")
    case True
    have d: "d = IMAGE_FLAT_SIZE - (i + 1)" using Suc.hyps(2) by simp
    have short: "length buffer < index + 1 + (IMAGE_FLAT_SIZE - (i + 1))"
      using Suc.prems(2) lt by simp
    with True have lt': "i + 1 < IMAGE_FLAT_SIZE" by simp
    show ?thesis
      by (subst loadImages_record.simps)
         (simp only: lt if_True readUInt8_in [OF True] sum.case Suc.hyps(1) [OF d lt' short])
  next
    case False
    then have "readUInt8 buffer index = Inl RangeError" by (simp add: readUInt8_out)
    then show ?thesis
      by (subst loadImages_record.simps) (simp only: lt if_True sum.case)
  qed
qed

lemma loadImages_loop_run:
  "length buffer = index + IMAGE_FLAT_SIZE * k \<Longrightarrow>
   loadImages_loop buffer images index =
     Inr (images @ map (\<lambda>j. map float32_of_byte
            (take IMAGE_FLAT_SIZE (drop (index + IMAGE_FLAT_SIZE * j) buffer))) [0..<k])"
proof (induction k arbitrary: images index)
  case 0
  then show ?case by (subst loadImages_loop.simps) simp
next
  case (Suc k)
  then have lt: "index < length buffer" using IMAGE_FLAT_SIZE_pos by simp
  have fits: "index + (IMAGE_FLAT_SIZE - 0) \<le> length buffer" using Suc.prems by simp
  have rec: "loadImages_record buffer (new_Float32Array IMAGE_FLAT_SIZE) index 0 =
      Inr (map float32_of_byte (take IMAGE_FLAT_SIZE (drop index buffer)), index + IMAGE_FLAT_SIZE)"
    using loadImages_record_run [OF _ _ fits, of "new_Float32Array IMAGE_FLAT_SIZE"]
    by (simp add: new_Float32Array_def)
  have rest: "length buffer = (index + IMAGE_FLAT_SIZE) + IMAGE_FLAT_SIZE * k"
    using Suc.prems by simp
  have step: "loadImages_loop buffer images index =
      loadImages_loop buffer
        (images @ [map float32_of_byte (take IMAGE_FLAT_SIZE (drop index buffer))])
        (index + IMAGE_FLAT_SIZE)"
    by (subst loadImages_loop.simps) (simp only: lt if_True rec sum.case prod.case)
  show ?case
    by (simp only: step Suc.IH [OF rest] map_upt_Suc) (simp add: add.assoc)
qed

lemma loadImages_loop_partial:
  "index \<le> length buffer \<Longrightarrow> (length buffer - index) mod IMAGE_FLAT_SIZE \<noteq> 0 \<Longrightarrow>
   loadImages_loop buffer images index = Inl RangeError"
proof (induction "length buffer - index" arbitrary: images index rule: less_induct)
  case less
  from less.prems have lt: "index < length buffer"
    by (cases "index = length buffer") auto
  show ?case
  proof (cases "length buffer < index + IMAGE_FLAT_SIZE")
    case True
    then have "loadImages_record buffer (new_Float32Array IMAGE_FLAT_SIZE) index 0 = Inl RangeError"
      using IMAGE_FLAT_SIZE_pos by (intro loadImages_record_short) simp_all
    then show ?thesis
      by (subst loadImages_loop.simps) (simp only: lt if_True sum.case)
  next
    case False
    then have fits: "index + (IMAGE_FLAT_SIZE - 0) \<le> length buffer" by simp
    have rec: "loadImages_record buffer (new_Float32Array IMAGE_FLAT_SIZE) index 0 =
        Inr (map float32_of_byte (take IMAGE_FLAT_SIZE (drop index buffer)), index + IMAGE_FLAT_SIZE)"
      using loadImages_record_run [OF _ _ fits, of "new_Float32Array IMAGE_FLAT_SIZE"]
      by (simp add: new_Float32Array_def)
    have step: "loadImages_loop buffer images index =
        loadImages_loop buffer
          (images @ [map float32_of_byte (take IMAGE_FLAT_SIZE (drop index buffer))])
          (index + IMAGE_FLAT_SIZE)"
      by (subst loadImages_loop.simps) (simp only: lt if_True rec sum.case prod.case)
    have smaller: "length buffer - (index + IMAGE_FLAT_SIZE) < length buffer - index"
      using lt IMAGE_FLAT_SIZE_pos by simp
    have le: "index + IMAGE_FLAT_SIZE \<le> length buffer" using False by simp
    have "(length buffer - index) mod IMAGE_FLAT_SIZE =
        (length buffer - index - IMAGE_FLAT_SIZE) mod IMAGE_FLAT_SIZE"
      using le by (intro le_mod_geq) simp
    with less.prems(2) have md: "(length buffer - (index + IMAGE_FLAT_SIZE)) mod IMAGE_FLAT_SIZE \<noteq> 0"
      by simp
    show ?thesis
      by (simp only: step less.hyps [OF smaller le md])
  qed
qed

lemma float32_of_byte_0: "float32_of_byte 0 = 0"
  by (simp add: float32_of_byte_def number_div_def round_to_precision_0)

lemma float32_of_byte_255: "float32_of_byte 255 = 1"
  by (simp add: float32_of_byte_def number_div_255_255 round_to_precision_1)

lemma float32_of_byte_1: "float32_of_byte 1 = 8421505 / 2 ^ 31"
  by (simp add: float32_of_byte_def stored_1_255)

lemma float32_of_byte_bounds:
  "0 \<le> float32_of_byte b \<and> float32_of_byte b \<le> 1
   \<and> \<bar>float32_of_byte b - of_nat (unat b) / 255\<bar> \<le> 1 / 2 ^ 24 + 1 / 2 ^ 53"
proof (cases "unat b = 0")
  case True
  then show ?thesis
    by (simp add: float32_of_byte_def number_div_def round_to_precision_0)
next
  case False
  let ?x = "of_nat (unat b) / 255 :: rat"
  have "unat b < 2 ^ 8" using unsigned_less [of b, where ?'a = nat] by simp
  then have "unat b \<le> 255" by simp
  then have "(of_nat (unat b) :: rat) \<le> of_nat 255" by (simp only: of_nat_le_iff)
  then have le: "?x \<le> 1" by simp
  from False have "0 < unat b" by simp
  then have "(of_nat 0 :: rat) < of_nat (unat b)" by (simp only: of_nat_less_iff)
  then have pos: "0 < ?x" by simp
  from stored_quotient_bounds [OF pos le] show ?thesis
    by (simp add: float32_of_byte_def number_div_def)
qed

lemma IMAGE_FLAT_SIZE_784: "IMAGE_FLAT_SIZE = 784"
  by (simp add: IMAGE_FLAT_SIZE_def IMAGE_HEIGHT_def IMAGE_WIDTH_def)

lemma loadImages_run:
  assumes "fetchResource url True = Inr buffer"
    and "length buffer = IMAGE_HEADER_BYTES + IMAGE_FLAT_SIZE * k"
  shows "loadImages fetchResource url =
     Inr (map (\<lambda>j. map float32_of_byte
            (take IMAGE_FLAT_SIZE (drop (IMAGE_HEADER_BYTES + IMAGE_FLAT_SIZE * j) buffer))) [0..<k])"
proof -
  have "4 * 4 \<le> length buffer" using assms(2) by (simp add: IMAGE_HEADER_BYTES_def)
  then have "loadHeaderValues buffer (4 * 4) =
      Inr (map (\<lambda>j. big_endian (take 4 (drop (j * 4) buffer))) [0..<4])"
    by (rule loadHeaderValues_run)
  then have hdr: "loadHeaderValues buffer IMAGE_HEADER_BYTES =
      Inr (map (\<lambda>j. big_endian (take 4 (drop (j * 4) buffer))) [0..<4])"
    by (simp add: IMAGE_HEADER_BYTES_def)
  have get: "array_get (map (\<lambda>j. big_endian (take 4 (drop (j * 4) buffer))) [0..<4]) 1
      = Some (big_endian (take 4 (drop 4 buffer)))"
    by (simp add: array_get_def)
  show ?thesis
    unfolding loadImages_def
    by (simp only: assms(1) hdr loadImages_loop_run [OF assms(2)] get sum.case option.case
          append_Nil)
qed

lemma loadImages_partial:
  assumes "fetchResource url True = Inr buffer"
    and "(int (length buffer) - int IMAGE_HEADER_BYTES) mod int IMAGE_FLAT_SIZE \<noteq> 0"
  shows "loadImages fetchResource url = Inl RangeError"
proof (cases "length buffer < IMAGE_HEADER_BYTES")
  case True
  then have "length buffer < 4 * 4" by (simp add: IMAGE_HEADER_BYTES_def)
  then have "loadHeaderValues buffer (4 * 4) = Inl RangeError"
    by (intro loadHeaderValues_short) simp_all
  then have "loadHeaderValues buffer IMAGE_HEADER_BYTES = Inl RangeError"
    by (simp add: IMAGE_HEADER_BYTES_def)
  then show ?thesis
    unfolding loadImages_def by (simp only: assms(1) sum.case)
next
  case False
  then have le: "IMAGE_HEADER_BYTES \<le> length buffer" by simp
  then have "4 * 4 \<le> length buffer" by (simp add: IMAGE_HEADER_BYTES_def)
  then have "loadHeaderValues buffer (4 * 4) =
      Inr (map (\<lambda>j. big_endian (take 4 (drop (j * 4) buffer))) [0..<4])"
    by (rule loadHeaderValues_run)
  then have hdr: "loadHeaderValues buffer IMAGE_HEADER_BYTES =
      Inr (map (\<lambda>j. big_endian (take 4 (drop (j * 4) buffer))) [0..<4])"
    by (simp add: IMAGE_HEADER_BYTES_def)
  from le have eq: "int (length buffer - IMAGE_HEADER_BYTES) = int (length buffer) - int IMAGE_HEADER_BYTES"
    by (rule of_nat_diff)
  have "int ((length buffer - IMAGE_HEADER_BYTES) mod IMAGE_FLAT_SIZE) =
      (int (length buffer) - int IMAGE_HEADER_BYTES) mod int IMAGE_FLAT_SIZE"
    by (simp only: zmod_int eq)
  with assms(2) have "int ((length buffer - IMAGE_HEADER_BYTES) mod IMAGE_FLAT_SIZE) \<noteq> 0"
    by simp
  then have "(length buffer - IMAGE_HEADER_BYTES) mod IMAGE_FLAT_SIZE \<noteq> 0"
    by (simp only: of_nat_eq_0_iff not_False_eq_True)
  with le have "loadImages_loop buffer [] IMAGE_HEADER_BYTES = Inl RangeError"
    by (rule loadImages_loop_partial)
  then show ?thesis
    unfolding loadImages_def by (simp only: assms(1) hdr sum.case)
qed

lemma short_not_multiple:
  assumes "n < h" and "h < r"
  shows "(int n - int h) mod int r \<noteq> 0"
proof -
  have "(int n - int h + int r) mod int r = int n - int h + int r"
    using assms by (intro mod_pos_pos_trivial) simp_all
  moreover have "(int n - int h + int r) mod int r = (int n - int h) mod int r"
    by (rule mod_add_self2)
  ultimately show ?thesis using assms by simp
qed

lemma multiple_length:
  assumes "(int n - int h) mod int r = 0" and "h < r"
  shows "\<exists>k. n = h + r * k"
proof -
  have le: "h \<le> n"
    using short_not_multiple [of n h r] assms by (cases "n < h") simp_all
  then have eq: "int (n - h) = int n - int h" by (rule of_nat_diff)
  have "int ((n - h) mod r) = (int n - int h) mod int r"
    by (simp only: zmod_int eq)
  with assms(1) have "int ((n - h) mod r) = 0" by simp
  then have "(n - h) mod r = 0" by (simp only: of_nat_eq_0_iff)
  then obtain k where "n - h = r * k" by (auto simp: mod_eq_0_iff_dvd)
  with le have "n = h + r * k" by simp
  then show ?thesis ..
qed

lemma loadImages_Inr_length:
  assumes "fetchResource url True = Inr buffer" and "loadImages fetchResource url = Inr images"
  shows "length buffer = IMAGE_HEADER_BYTES + IMAGE_FLAT_SIZE * length images"
proof -
  have md: "(int (length buffer) - int IMAGE_HEADER_BYTES) mod int IMAGE_FLAT_SIZE = 0"
  proof (rule ccontr)
    assume "(int (length buffer) - int IMAGE_HEADER_BYTES) mod int IMAGE_FLAT_SIZE \<noteq> 0"
    with assms(1) have "loadImages fetchResource url = Inl RangeError"
      by (rule loadImages_partial)
    with assms(2) show False by simp
  qed
  have "IMAGE_HEADER_BYTES < IMAGE_FLAT_SIZE"
    by (simp add: IMAGE_HEADER_BYTES_def IMAGE_FLAT_SIZE_784)
  with md have "\<exists>k. length buffer = IMAGE_HEADER_BYTES + IMAGE_FLAT_SIZE * k"
    by (rule multiple_length)
  then obtain k where k: "length buffer = IMAGE_HEADER_BYTES + IMAGE_FLAT_SIZE * k" ..
  have "loadImages fetchResource url =
     Inr (map (\<lambda>j. map float32_of_byte
            (take IMAGE_FLAT_SIZE (drop (IMAGE_HEADER_BYTES + IMAGE_FLAT_SIZE * j) buffer))) [0..<k])"
    using assms(1) k by (rule loadImages_run)
  with assms(2) have "length images = k" by auto
  with k show ?thesis by simp
qed

text \<open>
  C1, as amended. For a byte buffer of length \<open>16 + 784k\<close>, \<open>loadImages\<close> returns exactly
  \<open>k\<close> records of length 784, whatever the header declares; the \<open>i\<close>-th value of record
  \<open>j\<close> is the byte at offset \<open>16 + 784j + i\<close> divided by 255 as a number and rounded to
  single precision by the store into the \<^verbatim>\<open>Float32Array\<close>. Byte 0 gives exactly 0 and
  byte 255 exactly 1; every value lies between 0 and 1 and within \<open>2\<^sup>-\<^sup>2\<^sup>4 + 2\<^sup>-\<^sup>5\<^sup>3\<close> of
  the exact quotient.
\<close>

theorem loadImages_records:
  assumes "fetchResource url True = Inr buffer" and "length buffer = 16 + 784 * k"
  shows "\<exists>images. loadImages fetchResource url = Inr images
           \<and> length images = k
           \<and> (\<forall>j < k. length (images ! j) = 784
                 \<and> (\<forall>i < 784. images ! j ! i = float32_of_byte (buffer ! (16 + 784 * j + i))))
           \<and> float32_of_byte 0 = 0 \<and> float32_of_byte 255 = 1
           \<and> (\<forall>b. 0 \<le> float32_of_byte b \<and> float32_of_byte b \<le> 1
                 \<and> \<bar>float32_of_byte b - of_nat (unat b) / 255\<bar> \<le> 1 / 2 ^ 24 + 1 / 2 ^ 53)"
proof -
  let ?images = "map (\<lambda>j. map float32_of_byte
      (take IMAGE_FLAT_SIZE (drop (IMAGE_HEADER_BYTES + IMAGE_FLAT_SIZE * j) buffer))) [0..<k]"
  have len: "length buffer = IMAGE_HEADER_BYTES + IMAGE_FLAT_SIZE * k"
    using assms(2) by (simp add: IMAGE_HEADER_BYTES_def IMAGE_FLAT_SIZE_784)
  with assms(1) have run: "loadImages fetchResource url = Inr ?images"
    by (rule loadImages_run)
  have rec: "length (?images ! j) = 784
      \<and> (\<forall>i < 784. ?images ! j ! i = float32_of_byte (buffer ! (16 + 784 * j + i)))"
    if "j < k" for j
  proof -
    from that have "784 * j + 784 \<le> 784 * k"
      by (metis Suc_leI add.commute mult_Suc_right mult_le_mono2)
    with that assms(2) show ?thesis
      by (simp add: IMAGE_HEADER_BYTES_def IMAGE_FLAT_SIZE_784 add.assoc)
  qed
  then have recs: "\<forall>j < k. length (?images ! j) = 784
      \<and> (\<forall>i < 784. ?images ! j ! i = float32_of_byte (buffer ! (16 + 784 * j + i)))"
    by blast
  have count: "length ?images = k" by simp
  have near: "\<forall>b. 0 \<le> float32_of_byte b \<and> float32_of_byte b \<le> 1
      \<and> \<bar>float32_of_byte b - of_nat (unat b) / 255\<bar> \<le> 1 / 2 ^ 24 + 1 / 2 ^ 53"
    using float32_of_byte_bounds by blast
  from run count recs float32_of_byte_0 float32_of_byte_255 near show ?thesis
    by blast
qed

theorem loadImages_records_witness:
  "loadImages (fetch_of [(TRAIN_IMAGES_FILE, replicate 16 7 @ replicate 784 255)]) TRAIN_IMAGES_FILE
     = Inr [replicate 784 1]"
proof -
  let ?buffer = "replicate 16 7 @ replicate 784 255 :: buffer"
  let ?fetch = "fetch_of [(TRAIN_IMAGES_FILE, ?buffer)]"
  have f: "?fetch TRAIN_IMAGES_FILE True = Inr ?buffer"
    by (simp add: fetch_of_def)
  have l: "length ?buffer = 16 + 784 * 1" by simp
  from loadImages_records [of ?fetch TRAIN_IMAGES_FILE ?buffer 1, OF f l]
  obtain images where run: "loadImages ?fetch TRAIN_IMAGES_FILE = Inr images"
    and len: "length images = 1"
    and rec: "length (images ! 0) = 784"
    and val: "\<forall>i < 784. images ! 0 ! i = float32_of_byte (?buffer ! (16 + 784 * 0 + i))"
    by auto
  have "images ! 0 ! i = 1" if "i < 784" for i
    using val that by (simp add: nth_append float32_of_byte_255)
  with rec have "images ! 0 = replicate 784 1"
    by (simp add: list_eq_iff_nth_eq)
  with len have "images = [replicate 784 1]"
    by (cases images) simp_all
  with run show ?thesis by simp
qed

text \<open>
  C1 as stated asks for the value to equal the byte divided by 255. For the byte 1 the record
  holds \<open>8421505 / 2\<^sup>3\<^sup>1\<close>, which is neither the exact quotient \<open>1 / 255\<close> nor the
  double that \<^verbatim>\<open>1 / 255.0\<close> evaluates to.
\<close>

theorem loadImages_exact_quotient_counterexample:
  "loadImages (fetch_of [(TRAIN_IMAGES_FILE, replicate 16 0 @ 1 # replicate 783 0)]) TRAIN_IMAGES_FILE
     = Inr [8421505 / 2147483648 # replicate 783 0]
   \<and> (8421505 / 2147483648 :: rat) \<noteq> 1 / 255
   \<and> 8421505 / 2147483648 \<noteq> number_div 1 255"
proof -
  let ?buffer = "replicate 16 0 @ 1 # replicate 783 0 :: buffer"
  let ?fetch = "fetch_of [(TRAIN_IMAGES_FILE, ?buffer)]"
  have f: "?fetch TRAIN_IMAGES_FILE True = Inr ?buffer"
    by (simp add: fetch_of_def)
  have l: "length ?buffer = IMAGE_HEADER_BYTES + IMAGE_FLAT_SIZE * 1"
    by (simp add: IMAGE_HEADER_BYTES_def IMAGE_FLAT_SIZE_784)
  have "loadImages ?fetch TRAIN_IMAGES_FILE =
      Inr (map (\<lambda>j. map float32_of_byte
            (take IMAGE_FLAT_SIZE (drop (IMAGE_HEADER_BYTES + IMAGE_FLAT_SIZE * j) ?buffer))) [0..<1])"
    using f l by (rule loadImages_run)
  then show ?thesis
    by (simp add: IMAGE_HEADER_BYTES_def IMAGE_FLAT_SIZE_784 float32_of_byte_0 float32_of_byte_1
          number_div_1_255)
qed

subsection \<open>The records of a label file\<close>

lemma int32_of_byte_ucast: "int32_of_byte b = ucast b"
  by (simp add: int32_of_byte_def)

lemma sint_int32_of_byte: "sint (int32_of_byte b) = uint b"
proof -
  have "uint b < 2 ^ 8" using uint_bounded [of b] by simp
  then have hi: "uint b < 2 ^ 31" by simp
  have "(0::int) \<le> uint b" by simp
  moreover have "- (2 ^ 31) \<le> (0::int)" by simp
  ultimately have lo: "- (2 ^ 31) \<le> uint b" by (rule order_trans [rotated])
  have "sint (ucast b :: 32 word) = signed_take_bit (LENGTH(32) - Suc 0) (uint b)"
    by (rule signed_ucast_eq)
  also have "\<dots> = signed_take_bit 31 (uint b)" by simp
  also have "\<dots> = uint b"
    using lo hi by (rule signed_take_bit_int_eq_self)
  finally show ?thesis by (simp only: int32_of_byte_ucast)
qed

lemma LABEL_RECORD_BYTE_pos: "0 < LABEL_RECORD_BYTE"
  by (simp add: LABEL_RECORD_BYTE_def)

lemma loadLabels_record_run:
  "i \<le> LABEL_RECORD_BYTE \<Longrightarrow> length array = LABEL_RECORD_BYTE \<Longrightarrow>
   index + (LABEL_RECORD_BYTE - i) \<le> length buffer \<Longrightarrow>
   loadLabels_record buffer array index i =
     Inr (take i array @ map int32_of_byte (take (LABEL_RECORD_BYTE - i) (drop index buffer)),
          index + (LABEL_RECORD_BYTE - i))"
proof (induction "LABEL_RECORD_BYTE - i" arbitrary: i array index)
  case 0
  then have "\<not> i < LABEL_RECORD_BYTE" and "LABEL_RECORD_BYTE - i = 0" by simp_all
  then show ?case using "0.prems"(2)
    by (subst loadLabels_record.simps) simp
next
  case (Suc d)
  then have lt: "i < LABEL_RECORD_BYTE" and inb: "index < length buffer" by simp_all
  let ?array = "Int32Array_store array i (unat (buffer ! index))"
  have step: "loadLabels_record buffer array index i =
      loadLabels_record buffer ?array (index + 1) (i + 1)"
    by (subst loadLabels_record.simps) (simp only: lt if_True readUInt8_in [OF inb] sum.case)
  have d: "d = LABEL_RECORD_BYTE - (i + 1)" using Suc.hyps(2) by simp
  have len: "length ?array = LABEL_RECORD_BYTE"
    using Suc.prems(2) by (simp add: Int32Array_store_def)
  have rest: "index + 1 + (LABEL_RECORD_BYTE - (i + 1)) \<le> length buffer"
    using Suc.prems(3) lt by simp
  have tk: "take (i + 1) ?array = take i array @ [int32_of_byte (buffer ! index)]"
    using lt Suc.prems(2)
    by (simp add: Int32Array_store_def int32_of_byte_def take_Suc_conv_app_nth)
  have dr: "take (LABEL_RECORD_BYTE - i) (drop index buffer) =
      buffer ! index # take (LABEL_RECORD_BYTE - (i + 1)) (drop (index + 1) buffer)"
    using take_Suc_drop [OF inb, of d] Suc.hyps(2) d by simp
  have "i + 1 \<le> LABEL_RECORD_BYTE" using lt by simp
  from Suc.hyps(1) [OF d this len rest] show ?case
    using lt by (simp only: step tk dr) simp
qed

lemma loadLabels_record_short:
  "i < LABEL_RECORD_BYTE \<Longrightarrow> length buffer < index + (LABEL_RECORD_BYTE - i) \<Longrightarrow>
   loadLabels_record buffer array index i = Inl RangeError"
proof (induction "LABEL_RECORD_BYTE - i" arbitrary: i array index)
  case 0
  then show ?case by simp
next
  case (Suc d)
  note lt = Suc.prems(1)
  show ?case
  proof (cases "index < length buffer")
    case True
    have d: "d = LABEL_RECORD_BYTE - (i + 1)" using Suc.hyps(2) by simp
    have short: "length buffer < index + 1 + (LABEL_RECORD_BYTE - (i + 1))"
      using Suc.prems(2) lt by simp
    with True have lt': "i + 1 < LABEL_RECORD_BYTE" by simp
    show ?thesis
      by (subst loadLabels_record.simps)
         (simp only: lt if_True readUInt8_in [OF True] sum.case Suc.hyps(1) [OF d lt' short])
  next
    case False
    then have "readUInt8 buffer index = Inl RangeError" by (simp add: readUInt8_out)
    then show ?thesis
      by (subst loadLabels_record.simps) (simp only: lt if_True sum.case)
  qed
qed

lemma loadLabels_loop_run:
  "length buffer = index + LABEL_RECORD_BYTE * k \<Longrightarrow>
   loadLabels_loop buffer labels index =
     Inr (labels @ map (\<lambda>j. map int32_of_byte
            (take LABEL_RECORD_BYTE (drop (index + LABEL_RECORD_BYTE * j) buffer))) [0..<k])"
proof (induction k arbitrary: labels index)
  case 0
  then show ?case by (subst loadLabels_loop.simps) simp
next
  case (Suc k)
  then have lt: "index < length buffer" using LABEL_RECORD_BYTE_pos by simp
  have fits: "index + (LABEL_RECORD_BYTE - 0) \<le> length buffer" using Suc.prems by simp
  have rec: "loadLabels_record buffer (new_Int32Array LABEL_RECORD_BYTE) index 0 =
      Inr (map int32_of_byte (take LABEL_RECORD_BYTE (drop index buffer)), index + LABEL_RECORD_BYTE)"
    using loadLabels_record_run [OF _ _ fits, of "new_Int32Array LABEL_RECORD_BYTE"]
    by (simp add: new_Int32Array_def)
  have rest: "length buffer = (index + LABEL_RECORD_BYTE) + LABEL_RECORD_BYTE * k"
    using Suc.prems by simp
  have step: "loadLabels_loop buffer labels index =
      loadLabels_loop buffer
        (labels @ [map int32_of_byte (take LABEL_RECORD_BYTE (drop index buffer))])
        (index + LABEL_RECORD_BYTE)"
    by (subst loadLabels_loop.simps) (simp only: lt if_True rec sum.case prod.case)
  show ?case
    by (simp only: step Suc.IH [OF rest] map_upt_Suc) (simp add: add.assoc)
qed

lemma records_of_one_byte:
  assumes "length buffer = h + k"
  shows "map (\<lambda>j. map f (take 1 (drop (h + 1 * j) buffer))) [0..<k] = map (\<lambda>b. [f b]) (drop h buffer)"
proof (rule nth_equalityI)
  show "length (map (\<lambda>j. map f (take 1 (drop (h + 1 * j) buffer))) [0..<k])
      = length (map (\<lambda>b. [f b]) (drop h buffer))"
    using assms by simp
next
  fix j
  assume "j < length (map (\<lambda>j. map f (take 1 (drop (h + 1 * j) buffer))) [0..<k])"
  then have j: "j < k" by simp
  then have "h + j < length buffer" using assms by simp
  then have "take 1 (drop (h + j) buffer) = [buffer ! (h + j)]"
    using take_Suc_drop [of "h + j" buffer 0] by simp
  with j assms show "map (\<lambda>j. map f (take 1 (drop (h + 1 * j) buffer))) [0..<k] ! j
      = map (\<lambda>b. [f b]) (drop h buffer) ! j"
    by simp
qed

lemma loadLabels_run:
  assumes "fetchResource url True = Inr buffer" and "LABEL_HEADER_BYTES \<le> length buffer"
  shows "loadLabels fetchResource url =
     Inr (map (\<lambda>b. [int32_of_byte b]) (drop LABEL_HEADER_BYTES buffer))"
proof -
  have "4 * 2 \<le> length buffer" using assms(2) by (simp add: LABEL_HEADER_BYTES_def)
  then have "loadHeaderValues buffer (4 * 2) =
      Inr (map (\<lambda>j. big_endian (take 4 (drop (j * 4) buffer))) [0..<2])"
    by (rule loadHeaderValues_run)
  then have hdr: "loadHeaderValues buffer LABEL_HEADER_BYTES =
      Inr (map (\<lambda>j. big_endian (take 4 (drop (j * 4) buffer))) [0..<2])"
    by (simp add: LABEL_HEADER_BYTES_def)
  have get: "array_get (map (\<lambda>j. big_endian (take 4 (drop (j * 4) buffer))) [0..<2]) 1
      = Some (big_endian (take 4 (drop 4 buffer)))"
    by (simp add: array_get_def)
  obtain k where k: "length buffer = LABEL_HEADER_BYTES + k"
    using assms(2) le_Suc_ex by blast
  then have len: "length buffer = LABEL_HEADER_BYTES + LABEL_RECORD_BYTE * k"
    by (simp add: LABEL_RECORD_BYTE_def)
  have recs: "map (\<lambda>j. map int32_of_byte
        (take LABEL_RECORD_BYTE (drop (LABEL_HEADER_BYTES + LABEL_RECORD_BYTE * j) buffer))) [0..<k]
      = map (\<lambda>b. [int32_of_byte b]) (drop LABEL_HEADER_BYTES buffer)"
    unfolding LABEL_RECORD_BYTE_def using k by (rule records_of_one_byte)
  show ?thesis
    unfolding loadLabels_def
    by (simp only: assms(1) hdr loadLabels_loop_run [OF len] get sum.case option.case
          append_Nil recs)
qed

lemma loadLabels_short:
  assumes "fetchResource url True = Inr buffer" and "length buffer < LABEL_HEADER_BYTES"
  shows "loadLabels fetchResource url = Inl RangeError"
proof -
  from assms(2) have "length buffer < 4 * 2" by (simp add: LABEL_HEADER_BYTES_def)
  then have "loadHeaderValues buffer (4 * 2) = Inl RangeError"
    by (intro loadHeaderValues_short) simp_all
  then have "loadHeaderValues buffer LABEL_HEADER_BYTES = Inl RangeError"
    by (simp add: LABEL_HEADER_BYTES_def)
  then show ?thesis
    unfolding loadLabels_def by (simp only: assms(1) sum.case)
qed

lemma LABEL_HEADER_BYTES_8: "LABEL_HEADER_BYTES = 8"
  by (simp add: LABEL_HEADER_BYTES_def)

lemma IMAGE_HEADER_BYTES_16: "IMAGE_HEADER_BYTES = 16"
  by (simp add: IMAGE_HEADER_BYTES_def)

text \<open>
  C4. For a byte buffer of length \<open>8 + k\<close>, \<open>loadLabels\<close> returns exactly \<open>k\<close> records,
  each an \<^verbatim>\<open>Int32Array\<close> of one element; the \<open>i\<close>-th, read as an integer, is the byte at
  offset \<open>8 + i\<close>, not normalised. The buffer \<open>[0,0,8,1,0,0,0,2,3,7]\<close> gives the labels
  3 and 7.
\<close>

theorem loadLabels_records:
  assumes "fetchResource url True = Inr buffer" and "length buffer = 8 + k"
  shows "\<exists>labels. loadLabels fetchResource url = Inr labels
           \<and> length labels = k
           \<and> labels = map (\<lambda>b. [int32_of_byte b]) (drop 8 buffer)
           \<and> (\<forall>i < k. map sint (labels ! i) = [uint (buffer ! (8 + i))])"
proof -
  have "LABEL_HEADER_BYTES \<le> length buffer"
    using assms(2) by (simp add: LABEL_HEADER_BYTES_8)
  with assms(1) have "loadLabels fetchResource url =
      Inr (map (\<lambda>b. [int32_of_byte b]) (drop LABEL_HEADER_BYTES buffer))"
    by (rule loadLabels_run)
  then have run: "loadLabels fetchResource url = Inr (map (\<lambda>b. [int32_of_byte b]) (drop 8 buffer))"
    by (simp only: LABEL_HEADER_BYTES_8)
  have count: "length (map (\<lambda>b. [int32_of_byte b]) (drop 8 buffer)) = k"
    using assms(2) by simp
  have vals: "\<forall>i < k. map sint (map (\<lambda>b. [int32_of_byte b]) (drop 8 buffer) ! i)
      = [uint (buffer ! (8 + i))]"
    using assms(2) by (simp add: sint_int32_of_byte)
  from run count vals show ?thesis by blast
qed

theorem loadLabels_records_witness:
  "loadLabels (fetch_of [(TRAIN_LABELS_FILE, [0, 0, 8, 1, 0, 0, 0, 2, 3, 7])]) TRAIN_LABELS_FILE
     = Inr [[3], [7]]"
proof -
  let ?buffer = "[0, 0, 8, 1, 0, 0, 0, 2, 3, 7] :: buffer"
  let ?fetch = "fetch_of [(TRAIN_LABELS_FILE, ?buffer)]"
  have f: "?fetch TRAIN_LABELS_FILE True = Inr ?buffer"
    by (simp add: fetch_of_def)
  have l: "length ?buffer = 8 + 2" by simp
  from loadLabels_records [of ?fetch TRAIN_LABELS_FILE ?buffer 2, OF f l]
  show ?thesis by (auto simp: int32_of_byte_def)
qed

lemma concat_records:
  "length buffer = h + n * k \<Longrightarrow>
   concat (map (\<lambda>j. map f (take n (drop (h + n * j) buffer))) [0..<k]) = map f (drop h buffer)"
proof (induction k arbitrary: h)
  case 0
  then show ?case by simp
next
  case (Suc k)
  then have "length buffer = (h + n) + n * k" by simp
  then have "concat (map (\<lambda>j. map f (take n (drop ((h + n) + n * j) buffer))) [0..<k])
      = map f (drop (h + n) buffer)"
    by (rule Suc.IH)
  then have "concat (map (\<lambda>j. map f (take n (drop (h + n * j) buffer))) [0..<Suc k])
      = map f (take n (drop h buffer)) @ map f (drop n (drop h buffer))"
    by (simp only: map_upt_Suc) (simp add: add.assoc add.commute)
  also have "\<dots> = map f (drop h buffer)"
    by (simp only: map_append [symmetric] append_take_drop_id)
  finally show ?case .
qed

text \<open>
  C6. When the bytes after the header of an image file are not a whole number of records,
  \<open>loadImages\<close> signals an error, the \<^verbatim>\<open>RangeError\<close> of the read beyond the end of the
  buffer, and returns no record. Whenever \<open>loadImages\<close> or \<open>loadLabels\<close> does return
  records, the buffer is the header followed by whole records and the values of the records,
  in order, are the conversions of exactly the bytes after the header: no value comes from
  beyond the end and none is fill. A label record is one byte, so a label file has no partial
  record.
\<close>

theorem partial_record_signalled:
  assumes "fetchResource url True = Inr buffer"
  shows "((int (length buffer) - int IMAGE_HEADER_BYTES) mod int IMAGE_FLAT_SIZE \<noteq> 0
            \<longrightarrow> loadImages fetchResource url = Inl RangeError)
       \<and> (\<forall>images. loadImages fetchResource url = Inr images
            \<longrightarrow> length buffer = IMAGE_HEADER_BYTES + IMAGE_FLAT_SIZE * length images
              \<and> concat images = map float32_of_byte (drop IMAGE_HEADER_BYTES buffer))
       \<and> (\<forall>labels. loadLabels fetchResource url = Inr labels
            \<longrightarrow> length buffer = LABEL_HEADER_BYTES + LABEL_RECORD_BYTE * length labels
              \<and> concat labels = map int32_of_byte (drop LABEL_HEADER_BYTES buffer))"
proof (intro conjI allI impI)
  assume "(int (length buffer) - int IMAGE_HEADER_BYTES) mod int IMAGE_FLAT_SIZE \<noteq> 0"
  with assms show "loadImages fetchResource url = Inl RangeError"
    by (rule loadImages_partial)
next
  fix images
  assume ok: "loadImages fetchResource url = Inr images"
  with assms show len: "length buffer = IMAGE_HEADER_BYTES + IMAGE_FLAT_SIZE * length images"
    by (rule loadImages_Inr_length)
  with assms have "loadImages fetchResource url =
     Inr (map (\<lambda>j. map float32_of_byte
            (take IMAGE_FLAT_SIZE (drop (IMAGE_HEADER_BYTES + IMAGE_FLAT_SIZE * j) buffer)))
          [0..<length images])"
    by (rule loadImages_run)
  with ok have "images = map (\<lambda>j. map float32_of_byte
            (take IMAGE_FLAT_SIZE (drop (IMAGE_HEADER_BYTES + IMAGE_FLAT_SIZE * j) buffer)))
          [0..<length images]"
    by simp
  then have "concat images = concat (map (\<lambda>j. map float32_of_byte
            (take IMAGE_FLAT_SIZE (drop (IMAGE_HEADER_BYTES + IMAGE_FLAT_SIZE * j) buffer)))
          [0..<length images])"
    by simp
  also have "\<dots> = map float32_of_byte (drop IMAGE_HEADER_BYTES buffer)"
    using len by (rule concat_records)
  finally show "concat images = map float32_of_byte (drop IMAGE_HEADER_BYTES buffer)" .
next
  fix labels
  assume ok: "loadLabels fetchResource url = Inr labels"
  have le: "LABEL_HEADER_BYTES \<le> length buffer"
  proof (rule ccontr)
    assume "\<not> LABEL_HEADER_BYTES \<le> length buffer"
    then have "length buffer < LABEL_HEADER_BYTES" by simp
    with assms have "loadLabels fetchResource url = Inl RangeError"
      by (rule loadLabels_short)
    with ok show False by simp
  qed
  with assms have "loadLabels fetchResource url =
      Inr (map (\<lambda>b. [int32_of_byte b]) (drop LABEL_HEADER_BYTES buffer))"
    by (rule loadLabels_run)
  with ok have labels: "labels = map (\<lambda>b. [int32_of_byte b]) (drop LABEL_HEADER_BYTES buffer)"
    by simp
  with le show "length buffer = LABEL_HEADER_BYTES + LABEL_RECORD_BYTE * length labels"
    by (simp add: LABEL_RECORD_BYTE_def)
  from labels show "concat labels = map int32_of_byte (drop LABEL_HEADER_BYTES buffer)"
    by simp
qed

theorem partial_record_signalled_witness:
  "loadImages (fetch_of [(TRAIN_IMAGES_FILE, replicate 17 0), (TRAIN_LABELS_FILE, replicate 17 0)])
     TRAIN_IMAGES_FILE = Inl RangeError
   \<and> (\<exists>labels.
        loadLabels (fetch_of [(TRAIN_IMAGES_FILE, replicate 17 0), (TRAIN_LABELS_FILE, replicate 17 0)])
          TRAIN_LABELS_FILE = Inr labels
        \<and> concat labels = replicate 9 0)"
proof -
  let ?buffer = "replicate 17 0 :: buffer"
  let ?fetch = "fetch_of [(TRAIN_IMAGES_FILE, ?buffer), (TRAIN_LABELS_FILE, ?buffer)]"
  have f: "?fetch TRAIN_IMAGES_FILE True = Inr ?buffer"
    by (simp add: fetch_of_def)
  have g: "?fetch TRAIN_LABELS_FILE True = Inr ?buffer"
    by (simp add: fetch_of_def TRAIN_IMAGES_FILE_def TRAIN_LABELS_FILE_def)
  have "(int (length ?buffer) - int IMAGE_HEADER_BYTES) mod int IMAGE_FLAT_SIZE \<noteq> 0"
    by (simp add: IMAGE_HEADER_BYTES_16 IMAGE_FLAT_SIZE_784)
  with partial_record_signalled [of ?fetch TRAIN_IMAGES_FILE ?buffer, OF f]
  have images: "loadImages ?fetch TRAIN_IMAGES_FILE = Inl RangeError" by blast
  have "LABEL_HEADER_BYTES \<le> length ?buffer" by (simp add: LABEL_HEADER_BYTES_8)
  with g have run: "loadLabels ?fetch TRAIN_LABELS_FILE =
      Inr (map (\<lambda>b. [int32_of_byte b]) (drop LABEL_HEADER_BYTES ?buffer))"
    by (rule loadLabels_run)
  with partial_record_signalled [of ?fetch TRAIN_LABELS_FILE ?buffer, OF g]
  have "concat (map (\<lambda>b. [int32_of_byte b]) (drop LABEL_HEADER_BYTES ?buffer))
      = map int32_of_byte (drop LABEL_HEADER_BYTES ?buffer)"
    by blast
  then have "concat (map (\<lambda>b. [int32_of_byte b]) (drop LABEL_HEADER_BYTES ?buffer)) = replicate 9 0"
    by (simp add: LABEL_HEADER_BYTES_8 int32_of_byte_def)
  with run images show ?thesis by blast
qed

subsection \<open>Assembling a split\<close>

lemma length_concat_uniform:
  "\<forall>r \<in> set rs. length r = n \<Longrightarrow> length (concat rs) = n * length rs"
  by (induction rs) simp_all

lemma typed_array_set_next:
  assumes "length r = n" and "length done = offset"
  shows "typed_array_set (done @ replicate (n * Suc m) z) (Some r) offset
           = Inr ((done @ r) @ replicate (n * m) z)"
  using assms by (simp add: typed_array_set_def replicate_add [symmetric] del: replicate_add)

lemma take_Suc_concat:
  "i < length rs \<Longrightarrow> concat (take (Suc i) rs) = concat (take i rs) @ rs ! i"
  by (simp add: take_Suc_conv_app_nth)

lemma getData_loop_run:
  assumes "size' \<le> length srcImages" and "size' \<le> length srcLabels"
    and "\<forall>r \<in> set srcImages. length r = IMAGE_FLAT_SIZE"
    and "\<forall>l \<in> set srcLabels. length l = 1"
  shows "i \<le> size' \<Longrightarrow>
    getData_loop srcImages srcLabels size'
      (concat (take i srcImages) @ replicate (IMAGE_FLAT_SIZE * (size' - i)) 0)
      (concat (take i srcLabels) @ replicate (1 * (size' - i)) 0)
      (IMAGE_FLAT_SIZE * i) (1 * i) i
    = Inr (concat (take size' srcImages), concat (take size' srcLabels))"
proof (induction "size' - i" arbitrary: i)
  case 0
  then have "i = size'" by simp
  then show ?case by (subst getData_loop.simps) simp
next
  case (Suc d)
  then have lt: "i < size'" by simp
  then have ii: "i < length srcImages" and il: "i < length srcLabels"
    using assms(1,2) by simp_all
  have d: "size' - i = Suc (size' - (i + 1))" using lt by simp
  have li: "length (srcImages ! i) = IMAGE_FLAT_SIZE"
    using assms(3) ii by simp
  have ll: "length (srcLabels ! i) = 1"
    using assms(4) il by simp
  have oi: "length (concat (take i srcImages)) = IMAGE_FLAT_SIZE * i"
    using assms(3) ii length_concat_uniform [of "take i srcImages" IMAGE_FLAT_SIZE]
    by (auto dest: in_set_takeD)
  have ol: "length (concat (take i srcLabels)) = 1 * i"
    using assms(4) il length_concat_uniform [of "take i srcLabels" 1]
    by (auto dest: in_set_takeD)
  have si: "typed_array_set
        (concat (take i srcImages) @ replicate (IMAGE_FLAT_SIZE * (size' - i)) 0)
        (array_get srcImages i) (IMAGE_FLAT_SIZE * i)
      = Inr (concat (take (i + 1) srcImages) @ replicate (IMAGE_FLAT_SIZE * (size' - (i + 1))) 0)"
    using typed_array_set_next [OF li oi, of "size' - (i + 1)" 0] ii
    by (simp only: d array_get_def if_True) (simp add: take_Suc_concat)
  have sl: "typed_array_set
        (concat (take i srcLabels) @ replicate (1 * (size' - i)) 0)
        (array_get srcLabels i) (1 * i)
      = Inr (concat (take (i + 1) srcLabels) @ replicate (1 * (size' - (i + 1))) 0)"
    using typed_array_set_next [OF ll ol, of "size' - (i + 1)" 0] il
    by (simp only: d array_get_def if_True) (simp add: take_Suc_concat)
  have step: "getData_loop srcImages srcLabels size'
      (concat (take i srcImages) @ replicate (IMAGE_FLAT_SIZE * (size' - i)) 0)
      (concat (take i srcLabels) @ replicate (1 * (size' - i)) 0)
      (IMAGE_FLAT_SIZE * i) (1 * i) i
    = getData_loop srcImages srcLabels size'
      (concat (take (i + 1) srcImages) @ replicate (IMAGE_FLAT_SIZE * (size' - (i + 1))) 0)
      (concat (take (i + 1) srcLabels) @ replicate (1 * (size' - (i + 1))) 0)
      (IMAGE_FLAT_SIZE * (i + 1)) (1 * (i + 1)) (i + 1)"
    by (subst getData_loop.simps) (simp only: lt if_True si sl sum.case, simp add: add.commute)
  have "d = size' - (i + 1)" using Suc.hyps(2) by simp
  moreover have "i + 1 \<le> size'" using lt by simp
  ultimately show ?case
    by (simp only: step Suc.hyps(1))
qed


lemma toFloat_one_hot:
  "round_to_precision 24 (signed (if c then 1 else 0 :: int32)) = (if c then 1 else 0)"
  by (simp add: round_to_precision_0 round_to_precision_1)

lemma getData_run:
  assumes "well_formed this"
    and "length (split_images this b) \<le> length (split_labels this b)"
  shows "getData' this b =
    (Inr \<lparr>xs = \<lparr>shape = [length (split_images this b), IMAGE_HEIGHT, IMAGE_WIDTH, 1],
                 data = concat (split_images this b)\<rparr>,
           ys = \<lparr>shape = [length (split_images this b), LABEL_FLAT_SIZE],
                 data = concat (map one_hot_row
                   (concat (take (length (split_images this b)) (split_labels this b))))\<rparr>\<rparr>,
     this)"
proof -
  let ?imgs = "split_images this b" and ?lbls = "split_labels this b"
  let ?k = "length ?imgs"
  have wi: "\<forall>r \<in> set ?imgs. length r = IMAGE_FLAT_SIZE"
    and wl: "\<forall>l \<in> set ?lbls. length l = 1"
    using assms(1) by (simp_all add: well_formed_def LABEL_RECORD_BYTE_def)
  have "getData_loop ?imgs ?lbls ?k
      (concat (take 0 ?imgs) @ replicate (IMAGE_FLAT_SIZE * (?k - 0)) 0)
      (concat (take 0 ?lbls) @ replicate (1 * (?k - 0)) 0)
      (IMAGE_FLAT_SIZE * 0) (1 * 0) 0
    = Inr (concat (take ?k ?imgs), concat (take ?k ?lbls))"
    using _ assms(2) wi wl by (rule getData_loop_run) simp_all
  then have loop: "getData_loop ?imgs ?lbls ?k
      (new_Float32Array (sizeFromShape [?k, IMAGE_HEIGHT, IMAGE_WIDTH, 1]))
      (new_Int32Array (sizeFromShape [?k, 1])) 0 0 0
    = Inr (concat ?imgs, concat (take ?k ?lbls))"
    by (simp add: new_Float32Array_def new_Int32Array_def sizeFromShape_def
          IMAGE_FLAT_SIZE_def mult_ac)
  have len: "length (concat ?imgs) = IMAGE_FLAT_SIZE * ?k"
    using wi by (rule length_concat_uniform)
  have t4: "tensor4d (concat ?imgs) [?k, IMAGE_HEIGHT, IMAGE_WIDTH, 1]
      = Inr \<lparr>shape = [?k, IMAGE_HEIGHT, IMAGE_WIDTH, 1], data = concat ?imgs\<rparr>"
    by (simp add: tensor4d_def len sizeFromShape_def IMAGE_FLAT_SIZE_def mult_ac)
  have "length (concat (take ?k ?lbls)) = 1 * length (take ?k ?lbls)"
    using wl by (intro length_concat_uniform) (auto dest: in_set_takeD)
  then have lenl: "length (concat (take ?k ?lbls)) = ?k"
    using assms(2) by simp
  have oh: "oneHot (tensor1d (concat (take ?k ?lbls))) LABEL_FLAT_SIZE
      = Inr \<lparr>shape = [?k, LABEL_FLAT_SIZE],
              data = concat (map (\<lambda>index. map (\<lambda>j. if sint index = int j then 1 else 0)
                         [0..<LABEL_FLAT_SIZE]) (concat (take ?k ?lbls)))\<rparr>"
    by (simp add: oneHot_def tensor1d_def lenl LABEL_FLAT_SIZE_def)
  have tf: "toFloat \<lparr>shape = [?k, LABEL_FLAT_SIZE],
              data = concat (map (\<lambda>index. map (\<lambda>j. if sint index = int j then 1 else 0)
                         [0..<LABEL_FLAT_SIZE]) (concat (take ?k ?lbls)))\<rparr>
      = \<lparr>shape = [?k, LABEL_FLAT_SIZE],
         data = concat (map one_hot_row (concat (take ?k ?lbls)))\<rparr>"
    by (simp add: toFloat_def one_hot_row_def [abs_def] map_concat comp_def toFloat_one_hot)
  show ?thesis
    unfolding getData'_def Let_def split_images_def [symmetric] split_labels_def [symmetric]
    by (simp only: loop t4 oh tf sum.case prod.case)
qed

lemma getData_missing_label:
  assumes "well_formed this"
    and "length (split_labels this b) < length (split_images this b)"
  shows "getData' this b = (Inl TypeError, this)"
proof -
  let ?imgs = "split_images this b" and ?lbls = "split_labels this b"
  let ?k = "length ?imgs" and ?m = "length ?lbls"
  have wi: "\<forall>r \<in> set ?imgs. length r = IMAGE_FLAT_SIZE"
    and wl: "\<forall>l \<in> set ?lbls. length l = 1"
    using assms(1) by (simp_all add: well_formed_def LABEL_RECORD_BYTE_def)
  have run: "i \<le> ?m \<Longrightarrow>
      getData_loop ?imgs ?lbls ?k
        (concat (take i ?imgs) @ replicate (IMAGE_FLAT_SIZE * (?k - i)) 0)
        (concat (take i ?lbls) @ replicate (1 * (?k - i)) 0)
        (IMAGE_FLAT_SIZE * i) (1 * i) i
      = Inl TypeError" for i
  proof (induction "?m - i" arbitrary: i)
    case 0
    then have i: "i = ?m" by simp
    then have lt: "i < ?k" using assms(2) by simp
    have d: "?k - i = Suc (?k - (i + 1))" using lt by simp
    have li: "length (?imgs ! i) = IMAGE_FLAT_SIZE" using wi lt by simp
    have oi: "length (concat (take i ?imgs)) = IMAGE_FLAT_SIZE * i"
      using wi lt length_concat_uniform [of "take i ?imgs" IMAGE_FLAT_SIZE]
      by (auto dest: in_set_takeD)
    have si: "typed_array_set
          (concat (take i ?imgs) @ replicate (IMAGE_FLAT_SIZE * (?k - i)) 0)
          (array_get ?imgs i) (IMAGE_FLAT_SIZE * i)
        = Inr (concat (take (i + 1) ?imgs) @ replicate (IMAGE_FLAT_SIZE * (?k - (i + 1))) 0)"
      using typed_array_set_next [OF li oi, of "?k - (i + 1)" 0] lt
      by (simp only: d array_get_def if_True) (simp add: take_Suc_concat)
    have sl: "typed_array_set (concat (take i ?lbls) @ replicate (1 * (?k - i)) 0)
          (array_get ?lbls i) (1 * i) = Inl TypeError"
      using i by (simp add: array_get_def typed_array_set_def)
    show ?case
      by (subst getData_loop.simps) (simp only: lt if_True si sl sum.case)
  next
    case (Suc d')
    then have il: "i < ?m" by simp
    then have lt: "i < ?k" using assms(2) by simp
    have d: "?k - i = Suc (?k - (i + 1))" using lt by simp
    have li: "length (?imgs ! i) = IMAGE_FLAT_SIZE" using wi lt by simp
    have ll: "length (?lbls ! i) = 1" using wl il by simp
    have oi: "length (concat (take i ?imgs)) = IMAGE_FLAT_SIZE * i"
      using wi lt length_concat_uniform [of "take i ?imgs" IMAGE_FLAT_SIZE]
      by (auto dest: in_set_takeD)
    have ol: "length (concat (take i ?lbls)) = 1 * i"
      using wl il length_concat_uniform [of "take i ?lbls" 1]
      by (auto dest: in_set_takeD)
    have si: "typed_array_set
          (concat (take i ?imgs) @ replicate (IMAGE_FLAT_SIZE * (?k - i)) 0)
          (array_get ?imgs i) (IMAGE_FLAT_SIZE * i)
        = Inr (concat (take (i + 1) ?imgs) @ replicate (IMAGE_FLAT_SIZE * (?k - (i + 1))) 0)"
      using typed_array_set_next [OF li oi, of "?k - (i + 1)" 0] lt
      by (simp only: d array_get_def if_True) (simp add: take_Suc_concat)
    have sl: "typed_array_set
          (concat (take i ?lbls) @ replicate (1 * (?k - i)) 0)
          (array_get ?lbls i) (1 * i)
        = Inr (concat (take (i + 1) ?lbls) @ replicate (1 * (?k - (i + 1))) 0)"
      using typed_array_set_next [OF ll ol, of "?k - (i + 1)" 0] il
      by (simp only: d array_get_def if_True) (simp add: take_Suc_concat)
    have step: "getData_loop ?imgs ?lbls ?k
        (concat (take i ?imgs) @ replicate (IMAGE_FLAT_SIZE * (?k - i)) 0)
        (concat (take i ?lbls) @ replicate (1 * (?k - i)) 0)
        (IMAGE_FLAT_SIZE * i) (1 * i) i
      = getData_loop ?imgs ?lbls ?k
        (concat (take (i + 1) ?imgs) @ replicate (IMAGE_FLAT_SIZE * (?k - (i + 1))) 0)
        (concat (take (i + 1) ?lbls) @ replicate (1 * (?k - (i + 1))) 0)
        (IMAGE_FLAT_SIZE * (i + 1)) (1 * (i + 1)) (i + 1)"
      by (subst getData_loop.simps) (simp only: lt if_True si sl sum.case, simp add: add.commute)
    have "d' = ?m - (i + 1)" using Suc.hyps(2) by simp
    moreover have "i + 1 \<le> ?m" using il by simp
    ultimately show ?case
      by (simp only: step Suc.hyps(1))
  qed
  have "getData_loop ?imgs ?lbls ?k
      (concat (take 0 ?imgs) @ replicate (IMAGE_FLAT_SIZE * (?k - 0)) 0)
      (concat (take 0 ?lbls) @ replicate (1 * (?k - 0)) 0)
      (IMAGE_FLAT_SIZE * 0) (1 * 0) 0
    = Inl TypeError"
    by (rule run) simp
  then have loop: "getData_loop ?imgs ?lbls ?k
      (new_Float32Array (sizeFromShape [?k, IMAGE_HEIGHT, IMAGE_WIDTH, 1]))
      (new_Int32Array (sizeFromShape [?k, 1])) 0 0 0
    = Inl TypeError"
    by (simp add: new_Float32Array_def new_Int32Array_def sizeFromShape_def
          IMAGE_FLAT_SIZE_def mult_ac)
  show ?thesis
    unfolding getData'_def Let_def split_images_def [symmetric] split_labels_def [symmetric]
    by (simp only: loop sum.case)
qed

lemma row_of_concat:
  "\<forall>r \<in> set rows. length r = n \<Longrightarrow> i < length rows \<Longrightarrow>
   take n (drop (i * n) (concat rows)) = rows ! i"
proof (induction rows arbitrary: i)
  case Nil
  then show ?case by simp
next
  case (Cons r rows)
  show ?case
  proof (cases i)
    case 0
    with Cons.prems show ?thesis by simp
  next
    case (Suc i')
    with Cons.prems have "take n (drop (i' * n) (concat rows)) = rows ! i'"
      by (intro Cons.IH) simp_all
    with Cons.prems Suc show ?thesis by simp
  qed
qed

lemma concat_singletons:
  "\<forall>l \<in> set ls. length l = 1 \<Longrightarrow> concat ls = map hd ls"
proof (induction ls)
  case Nil
  then show ?case by simp
next
  case (Cons l ls)
  then have "length l = 1" by simp
  then obtain a where "l = [a]" by (cases l) simp_all
  with Cons show ?case by simp
qed

lemma length_one_hot_row: "length (one_hot_row label) = LABEL_FLAT_SIZE"
  by (simp add: one_hot_row_def)

lemma one_hot_row_in_range:
  assumes "0 \<le> sint label" and "sint label < 10"
  shows "one_hot_row label = (replicate 10 0)[nat (sint label) := 1]"
proof (rule nth_equalityI)
  show "length (one_hot_row label) = length ((replicate 10 (0::rat))[nat (sint label) := 1])"
    by (simp add: one_hot_row_def LABEL_FLAT_SIZE_def)
next
  fix j
  assume "j < length (one_hot_row label)"
  then have j: "j < 10" by (simp add: one_hot_row_def LABEL_FLAT_SIZE_def)
  have "(sint label = int j) = (j = nat (sint label))" using assms(1) by auto
  with j show "one_hot_row label ! j = (replicate 10 0)[nat (sint label) := 1] ! j"
    by (simp add: one_hot_row_def LABEL_FLAT_SIZE_def nth_list_update)
qed

lemma one_hot_row_out_of_range:
  assumes "sint label < 0 \<or> 10 \<le> sint label"
  shows "one_hot_row label = replicate 10 0"
proof (rule nth_equalityI)
  show "length (one_hot_row label) = length (replicate 10 (0::rat))"
    by (simp add: one_hot_row_def LABEL_FLAT_SIZE_def)
next
  fix j
  assume "j < length (one_hot_row label)"
  then have j: "j < 10" by (simp add: one_hot_row_def LABEL_FLAT_SIZE_def)
  with assms have "sint label \<noteq> int j" by auto
  with j show "one_hot_row label ! j = replicate 10 0 ! j"
    by (simp add: one_hot_row_def LABEL_FLAT_SIZE_def)
qed

lemma sum_list_unit_row:
  "m < n \<Longrightarrow> sum_list ((replicate n (0::rat))[m := 1]) = 1"
proof (induction n arbitrary: m)
  case 0
  then show ?case by simp
next
  case (Suc n)
  then show ?case by (cases m) (simp_all add: sum_list_replicate)
qed

lemma getData_rows:
  assumes "well_formed this"
    and "length (split_images this b) = k" and "length (split_labels this b) = k"
  shows "getData' this b =
    (Inr \<lparr>xs = \<lparr>shape = [k, 28, 28, 1], data = concat (split_images this b)\<rparr>,
           ys = \<lparr>shape = [k, 10],
                 data = concat (map (\<lambda>l. one_hot_row (hd l)) (split_labels this b))\<rparr>\<rparr>,
     this)"
proof -
  have wl: "\<forall>l \<in> set (split_labels this b). length l = 1"
    using assms(1) by (simp add: well_formed_def LABEL_RECORD_BYTE_def)
  have "length (split_images this b) \<le> length (split_labels this b)"
    using assms(2,3) by simp
  with assms(1) have "getData' this b =
    (Inr \<lparr>xs = \<lparr>shape = [length (split_images this b), IMAGE_HEIGHT, IMAGE_WIDTH, 1],
                 data = concat (split_images this b)\<rparr>,
           ys = \<lparr>shape = [length (split_images this b), LABEL_FLAT_SIZE],
                 data = concat (map one_hot_row
                   (concat (take (length (split_images this b)) (split_labels this b))))\<rparr>\<rparr>,
     this)"
    by (rule getData_run)
  moreover have "concat (take (length (split_images this b)) (split_labels this b))
      = map hd (split_labels this b)"
    using assms(2,3) wl by (simp add: concat_singletons)
  ultimately show ?thesis
    using assms(2) by (simp add: IMAGE_HEIGHT_def IMAGE_WIDTH_def LABEL_FLAT_SIZE_def comp_def)
qed


subsection \<open>Loading\<close>

lemma loadImages_Inr_fetch:
  "loadImages fetchResource url = Inr images \<Longrightarrow> \<exists>buffer. fetchResource url True = Inr buffer"
  by (cases "fetchResource url True") (simp_all add: loadImages_def)

lemma loadLabels_Inr_fetch:
  "loadLabels fetchResource url = Inr labels \<Longrightarrow> \<exists>buffer. fetchResource url True = Inr buffer"
  by (cases "fetchResource url True") (simp_all add: loadLabels_def)

lemma loadImages_record_length:
  assumes "loadImages fetchResource url = Inr images"
  shows "\<forall>r \<in> set images. length r = IMAGE_FLAT_SIZE"
proof -
  from assms obtain buffer where f: "fetchResource url True = Inr buffer"
    using loadImages_Inr_fetch by blast
  from f assms have len: "length buffer = IMAGE_HEADER_BYTES + IMAGE_FLAT_SIZE * length images"
    by (rule loadImages_Inr_length)
  with f have "loadImages fetchResource url =
     Inr (map (\<lambda>j. map float32_of_byte
            (take IMAGE_FLAT_SIZE (drop (IMAGE_HEADER_BYTES + IMAGE_FLAT_SIZE * j) buffer)))
          [0..<length images])"
    by (rule loadImages_run)
  with assms have images: "images = map (\<lambda>j. map float32_of_byte
            (take IMAGE_FLAT_SIZE (drop (IMAGE_HEADER_BYTES + IMAGE_FLAT_SIZE * j) buffer)))
          [0..<length images]"
    by simp
  have "length (take IMAGE_FLAT_SIZE (drop (IMAGE_HEADER_BYTES + IMAGE_FLAT_SIZE * j) buffer))
      = IMAGE_FLAT_SIZE" if "j < length images" for j
  proof -
    from that have "Suc j \<le> length images" by simp
    then have "IMAGE_FLAT_SIZE * Suc j \<le> IMAGE_FLAT_SIZE * length images"
      by (rule mult_le_mono2)
    with len show ?thesis by simp
  qed
  then have "\<forall>r \<in> set (map (\<lambda>j. map float32_of_byte
            (take IMAGE_FLAT_SIZE (drop (IMAGE_HEADER_BYTES + IMAGE_FLAT_SIZE * j) buffer)))
          [0..<length images]). length r = IMAGE_FLAT_SIZE"
    by simp
  with images show ?thesis by simp
qed

lemma loadLabels_record_length:
  assumes "loadLabels fetchResource url = Inr labels"
  shows "\<forall>l \<in> set labels. length l = LABEL_RECORD_BYTE"
proof -
  from assms obtain buffer where f: "fetchResource url True = Inr buffer"
    using loadLabels_Inr_fetch by blast
  have le: "LABEL_HEADER_BYTES \<le> length buffer"
  proof (rule ccontr)
    assume "\<not> LABEL_HEADER_BYTES \<le> length buffer"
    then have "length buffer < LABEL_HEADER_BYTES" by simp
    with f have "loadLabels fetchResource url = Inl RangeError"
      by (rule loadLabels_short)
    with assms show False by simp
  qed
  with f have "loadLabels fetchResource url =
      Inr (map (\<lambda>b. [int32_of_byte b]) (drop LABEL_HEADER_BYTES buffer))"
    by (rule loadLabels_run)
  with assms show ?thesis by (auto simp: LABEL_RECORD_BYTE_def)
qed

lemma loadData_success:
  assumes "loadImages fetchResource TRAIN_IMAGES_FILE = Inr a"
    and "loadLabels fetchResource TRAIN_LABELS_FILE = Inr b"
    and "loadImages fetchResource TEST_IMAGES_FILE = Inr c"
    and "loadLabels fetchResource TEST_LABELS_FILE = Inr d"
  shows "loadData fetchResource this =
    (Inr (), this\<lparr>dataset := (a, b, c, d), trainSize := length a, testSize := length c\<rparr>)"
  by (simp add: loadData_def Promise_all4_def assms Let_def dataset0_def dataset2_def)

lemma loadData_failure:
  assumes "loadImages fetchResource TRAIN_IMAGES_FILE = Inl e
      \<or> loadLabels fetchResource TRAIN_LABELS_FILE = Inl e
      \<or> loadImages fetchResource TEST_IMAGES_FILE = Inl e
      \<or> loadLabels fetchResource TEST_LABELS_FILE = Inl e"
  shows "\<exists>e'. loadData fetchResource this = (Inl e', this)"
  using assms by (auto simp: loadData_def Promise_all4_def split: sum.splits)

lemma loadData_cases:
  "(\<exists>e. loadData fetchResource this = (Inl e, this)
      \<and> (loadImages fetchResource TRAIN_IMAGES_FILE = Inl e
         \<or> loadLabels fetchResource TRAIN_LABELS_FILE = Inl e
         \<or> loadImages fetchResource TEST_IMAGES_FILE = Inl e
         \<or> loadLabels fetchResource TEST_LABELS_FILE = Inl e))
   \<or> (\<exists>a b c d. loadImages fetchResource TRAIN_IMAGES_FILE = Inr a
         \<and> loadLabels fetchResource TRAIN_LABELS_FILE = Inr b
         \<and> loadImages fetchResource TEST_IMAGES_FILE = Inr c
         \<and> loadLabels fetchResource TEST_LABELS_FILE = Inr d
         \<and> loadData fetchResource this =
             (Inr (), this\<lparr>dataset := (a, b, c, d), trainSize := length a, testSize := length c\<rparr>))"
  by (auto simp: loadData_def Promise_all4_def Let_def dataset0_def dataset2_def split: sum.splits)

lemma well_formed_constructor: "well_formed constructor"
  by (simp add: well_formed_def split_images_def split_labels_def constructor_def
        dataset0_def dataset1_def dataset2_def dataset3_def)

lemma loadData_well_formed:
  assumes "loadData fetchResource this = (Inr u, this')"
  shows "well_formed this'"
proof -
  from loadData_cases [of fetchResource this] assms
  obtain a b c d where a: "loadImages fetchResource TRAIN_IMAGES_FILE = Inr a"
    and b: "loadLabels fetchResource TRAIN_LABELS_FILE = Inr b"
    and c: "loadImages fetchResource TEST_IMAGES_FILE = Inr c"
    and d: "loadLabels fetchResource TEST_LABELS_FILE = Inr d"
    and this': "this' = this\<lparr>dataset := (a, b, c, d), trainSize := length a, testSize := length c\<rparr>"
    by auto
  note loadImages_record_length [OF a] loadLabels_record_length [OF b]
    loadImages_record_length [OF c] loadLabels_record_length [OF d]
  then show ?thesis
    by (simp add: this' well_formed_def split_images_def split_labels_def
          dataset0_def dataset1_def dataset2_def dataset3_def)
qed

lemma loadData_preserves_well_formed:
  assumes "well_formed this"
  shows "well_formed (snd (loadData fetchResource this))"
proof (cases "fst (loadData fetchResource this)")
  case (Inl e)
  with loadData_cases [of fetchResource this] have "snd (loadData fetchResource this) = this"
    by auto
  with assms show ?thesis by simp
next
  case (Inr u)
  then have "loadData fetchResource this = (Inr u, snd (loadData fetchResource this))"
    by (simp add: prod_eq_iff)
  then show ?thesis by (rule loadData_well_formed)
qed

subsection \<open>Example files\<close>

lemma example_files_fetch:
  "fetch_of (example_files ls) TRAIN_IMAGES_FILE True = Inr (replicate 16 0 @ replicate 784 0)"
  "fetch_of (example_files ls) TRAIN_LABELS_FILE True = Inr ls"
  "fetch_of (example_files ls) TEST_IMAGES_FILE True = Inr (replicate 16 0)"
  "fetch_of (example_files ls) TEST_LABELS_FILE True = Inr (replicate 8 0)"
  by (simp_all add: fetch_of_def example_files_def TRAIN_IMAGES_FILE_def TRAIN_LABELS_FILE_def
        TEST_IMAGES_FILE_def TEST_LABELS_FILE_def)

lemma example_files_load:
  assumes "8 \<le> length ls"
  shows "loadData (fetch_of (example_files ls)) this =
    (Inr (), this\<lparr>dataset := ([replicate 784 0], map (\<lambda>b. [int32_of_byte b]) (drop 8 ls), [], []),
                  trainSize := 1, testSize := 0\<rparr>)"
proof -
  let ?f = "fetch_of (example_files ls)"
  have "length (replicate 16 0 @ replicate 784 0 :: buffer) = IMAGE_HEADER_BYTES + IMAGE_FLAT_SIZE * 1"
    by (simp add: IMAGE_HEADER_BYTES_16 IMAGE_FLAT_SIZE_784)
  with example_files_fetch(1) have "loadImages ?f TRAIN_IMAGES_FILE =
     Inr (map (\<lambda>j. map float32_of_byte
            (take IMAGE_FLAT_SIZE (drop (IMAGE_HEADER_BYTES + IMAGE_FLAT_SIZE * j)
              (replicate 16 0 @ replicate 784 0)))) [0..<1])"
    by (rule loadImages_run)
  then have a: "loadImages ?f TRAIN_IMAGES_FILE = Inr [replicate 784 0]"
    by (simp add: IMAGE_HEADER_BYTES_16 IMAGE_FLAT_SIZE_784 float32_of_byte_0)
  have "LABEL_HEADER_BYTES \<le> length ls" using assms by (simp add: LABEL_HEADER_BYTES_8)
  with example_files_fetch(2) have "loadLabels ?f TRAIN_LABELS_FILE =
      Inr (map (\<lambda>b. [int32_of_byte b]) (drop LABEL_HEADER_BYTES ls))"
    by (rule loadLabels_run)
  then have b: "loadLabels ?f TRAIN_LABELS_FILE = Inr (map (\<lambda>b. [int32_of_byte b]) (drop 8 ls))"
    by (simp only: LABEL_HEADER_BYTES_8)
  have "length (replicate 16 0 :: buffer) = IMAGE_HEADER_BYTES + IMAGE_FLAT_SIZE * 0"
    by (simp add: IMAGE_HEADER_BYTES_16)
  with example_files_fetch(3) have "loadImages ?f TEST_IMAGES_FILE =
     Inr (map (\<lambda>j. map float32_of_byte
            (take IMAGE_FLAT_SIZE (drop (IMAGE_HEADER_BYTES + IMAGE_FLAT_SIZE * j)
              (replicate 16 0)))) [0..<0])"
    by (rule loadImages_run)
  then have c: "loadImages ?f TEST_IMAGES_FILE = Inr []" by simp
  have "LABEL_HEADER_BYTES \<le> length (replicate 8 0 :: buffer)" by (simp add: LABEL_HEADER_BYTES_8)
  with example_files_fetch(4) have "loadLabels ?f TEST_LABELS_FILE =
      Inr (map (\<lambda>b. [int32_of_byte b]) (drop LABEL_HEADER_BYTES (replicate 8 0)))"
    by (rule loadLabels_run)
  then have d: "loadLabels ?f TEST_LABELS_FILE = Inr []"
    by (simp add: LABEL_HEADER_BYTES_8)
  from loadData_success [OF a b c d, of this] show ?thesis by simp
qed

lemma example_state_well_formed:
  "well_formed \<lparr>dataset = ([replicate 784 0], [[label]], [], []), trainSize = 1, testSize = 0,
     trainBatchIndex = 0, testBatchIndex = 0\<rparr>"
  by (simp add: well_formed_def split_images_def split_labels_def IMAGE_FLAT_SIZE_784
        LABEL_RECORD_BYTE_def dataset0_def dataset1_def dataset2_def dataset3_def)

lemma example_state_train:
  "getTrainData \<lparr>dataset = ([replicate 784 0], [[label]], [], []), trainSize = 1, testSize = 0,
       trainBatchIndex = 0, testBatchIndex = 0\<rparr>
   = (Inr \<lparr>xs = \<lparr>shape = [1, 28, 28, 1], data = replicate 784 0\<rparr>,
           ys = \<lparr>shape = [1, 10], data = one_hot_row label\<rparr>\<rparr>,
      \<lparr>dataset = ([replicate 784 0], [[label]], [], []), trainSize = 1, testSize = 0,
       trainBatchIndex = 0, testBatchIndex = 0\<rparr>)"
proof -
  let ?s = "\<lparr>dataset = ([replicate 784 0], [[label]], [], []), trainSize = 1, testSize = 0,
     trainBatchIndex = 0, testBatchIndex = 0\<rparr>"
  have "getData' ?s True =
    (Inr \<lparr>xs = \<lparr>shape = [1, 28, 28, 1], data = concat (split_images ?s True)\<rparr>,
           ys = \<lparr>shape = [1, 10],
                 data = concat (map (\<lambda>l. one_hot_row (hd l)) (split_labels ?s True))\<rparr>\<rparr>,
     ?s)"
    using example_state_well_formed
    by (rule getData_rows) (simp_all add: split_images_def split_labels_def dataset0_def dataset1_def)
  then show ?thesis
    by (simp add: getTrainData_def split_images_def split_labels_def dataset0_def dataset1_def)
qed


subsection \<open>The batch of a split\<close>

lemma two_rows:
  assumes "length d = 20" and "take 10 d = a" and "take 10 (drop 10 d) = b"
  shows "d = a @ b"
proof -
  have "d = take 10 d @ drop 10 d" by simp
  moreover have "drop 10 d = take 10 (drop 10 d)" using assms(1) by simp
  ultimately show ?thesis using assms(2,3) by simp
qed

lemma unit_row_3: "(replicate 10 (0::rat))[3 := 1] = [0, 0, 0, 1, 0, 0, 0, 0, 0, 0]"
  by (simp add: numeral_eq_Suc)

lemma unit_row_7: "(replicate 10 (0::rat))[7 := 1] = [0, 0, 0, 0, 0, 0, 0, 1, 0, 0]"
  by (simp add: numeral_eq_Suc)

text \<open>
  C2, as amended. For a well-formed object whose selected split holds \<open>k\<close> image records and
  \<open>k\<close> labels, \<open>getData'\<close> returns an image buffer of length \<open>k \<times> 784\<close> with shape
  \<open>[k, 28, 28, 1]\<close> in which the 784 values of record \<open>i\<close> stand at offset \<open>i \<times> 784\<close>, in
  the order of the split, and a label tensor of shape \<open>[k, 10]\<close> in which the row of every
  label between 0 and 9 holds 1 at the index of the label and 0 at the other nine positions,
  so that the row sums to 1. The constructed object is well formed and \<open>loadData\<close> keeps
  an object well formed (\<open>well_formed_constructor\<close>, \<open>loadData_preserves_well_formed\<close>).
\<close>

theorem getData_batches:
  assumes "well_formed this"
    and "length (split_images this b) = k" and "length (split_labels this b) = k"
  shows "\<exists>r. getData' this b = (Inr r, this)
      \<and> shape (xs r) = [k, 28, 28, 1] \<and> length (data (xs r)) = k * 784
      \<and> (\<forall>i < k. take 784 (drop (i * 784) (data (xs r))) = split_images this b ! i)
      \<and> shape (ys r) = [k, 10] \<and> length (data (ys r)) = k * 10
      \<and> (\<forall>i < k. \<forall>label. split_labels this b ! i = [label] \<longrightarrow>
            0 \<le> sint label \<longrightarrow> sint label < 10 \<longrightarrow>
              take 10 (drop (i * 10) (data (ys r))) = (replicate 10 0)[nat (sint label) := 1]
              \<and> sum_list (take 10 (drop (i * 10) (data (ys r)))) = 1)"
proof -
  let ?imgs = "split_images this b" and ?lbls = "split_labels this b"
  let ?rows = "map (\<lambda>l. one_hot_row (hd l)) ?lbls"
  let ?r = "\<lparr>xs = \<lparr>shape = [k, 28, 28, 1], data = concat ?imgs\<rparr>,
             ys = \<lparr>shape = [k, 10], data = concat ?rows\<rparr>\<rparr>"
  have wi: "\<forall>r \<in> set ?imgs. length r = 784"
    using assms(1) by (simp add: well_formed_def IMAGE_FLAT_SIZE_784)
  have wr: "\<forall>r \<in> set ?rows. length r = 10"
    by (simp add: length_one_hot_row LABEL_FLAT_SIZE_def)
  have run: "getData' this b = (Inr ?r, this)"
    using assms by (rule getData_rows)
  have li: "length (concat ?imgs) = k * 784"
    using length_concat_uniform [OF wi] assms(2) by simp
  have lr: "length (concat ?rows) = k * 10"
    using length_concat_uniform [OF wr] assms(3) by simp
  have img: "\<forall>i < k. take 784 (drop (i * 784) (concat ?imgs)) = ?imgs ! i"
    using row_of_concat [OF wi] assms(2) by simp
  have row: "take 10 (drop (i * 10) (concat ?rows)) = one_hot_row (hd (?lbls ! i))" if "i < k" for i
    using row_of_concat [OF wr, of i] that assms(3) by simp
  have lab: "\<forall>i < k. \<forall>label. ?lbls ! i = [label] \<longrightarrow> 0 \<le> sint label \<longrightarrow> sint label < 10 \<longrightarrow>
      take 10 (drop (i * 10) (concat ?rows)) = (replicate 10 0)[nat (sint label) := 1]
      \<and> sum_list (take 10 (drop (i * 10) (concat ?rows))) = 1"
  proof (intro allI impI)
    fix i label
    assume i: "i < k" and l: "?lbls ! i = [label]" and lo: "0 \<le> sint label" and hi: "sint label < 10"
    have "take 10 (drop (i * 10) (concat ?rows)) = one_hot_row label"
      using row [OF i] l by simp
    also have "\<dots> = (replicate 10 0)[nat (sint label) := 1]"
      using lo hi by (rule one_hot_row_in_range)
    finally have eq: "take 10 (drop (i * 10) (concat ?rows)) = (replicate 10 0)[nat (sint label) := 1]" .
    have "nat (sint label) < 10" using lo hi by simp
    then have "sum_list ((replicate 10 (0::rat))[nat (sint label) := 1]) = 1"
      by (rule sum_list_unit_row)
    with eq show "take 10 (drop (i * 10) (concat ?rows)) = (replicate 10 0)[nat (sint label) := 1]
      \<and> sum_list (take 10 (drop (i * 10) (concat ?rows))) = 1"
      by simp
  qed
  define r where "r = ?r"
  have sel: "shape (xs r) = [k, 28, 28, 1]" "data (xs r) = concat ?imgs"
    "shape (ys r) = [k, 10]" "data (ys r) = concat ?rows"
    by (simp_all add: r_def)
  have "getData' this b = (Inr r, this)"
    using run by (simp only: r_def)
  moreover have "length (data (xs r)) = k * 784"
    using li by (simp only: sel)
  moreover have "\<forall>i < k. take 784 (drop (i * 784) (data (xs r))) = ?imgs ! i"
    using img by (simp only: sel)
  moreover have "length (data (ys r)) = k * 10"
    using lr by (simp only: sel)
  moreover have "\<forall>i < k. \<forall>label. ?lbls ! i = [label] \<longrightarrow> 0 \<le> sint label \<longrightarrow> sint label < 10 \<longrightarrow>
      take 10 (drop (i * 10) (data (ys r))) = (replicate 10 0)[nat (sint label) := 1]
      \<and> sum_list (take 10 (drop (i * 10) (data (ys r)))) = 1"
    using lab by (simp only: sel)
  ultimately show ?thesis
    using sel(1,3) by blast
qed

theorem getData_batches_witness:
  "\<exists>r. getData' \<lparr>dataset = ([], [], [replicate 784 0, replicate 784 1], [[3], [7]]),
                  trainSize = 0, testSize = 2, trainBatchIndex = 0, testBatchIndex = 0\<rparr> False
        = (Inr r, \<lparr>dataset = ([], [], [replicate 784 0, replicate 784 1], [[3], [7]]),
                  trainSize = 0, testSize = 2, trainBatchIndex = 0, testBatchIndex = 0\<rparr>)
      \<and> take 784 (drop 784 (data (xs r))) = replicate 784 1
      \<and> shape (ys r) = [2, 10]
      \<and> data (ys r) = [0, 0, 0, 1, 0, 0, 0, 0, 0, 0] @ [0, 0, 0, 0, 0, 0, 0, 1, 0, 0]"
proof -
  let ?s = "\<lparr>dataset = ([], [], [replicate 784 0, replicate 784 1], [[3], [7 :: int32]]),
             trainSize = 0, testSize = 2, trainBatchIndex = 0, testBatchIndex = 0\<rparr>"
  have i: "split_images ?s False = [replicate 784 0, replicate 784 1]"
    and l: "split_labels ?s False = [[3], [7]]"
    by (simp_all add: split_images_def split_labels_def dataset2_def dataset3_def)
  have w: "well_formed ?s"
    by (simp add: well_formed_def split_images_def split_labels_def IMAGE_FLAT_SIZE_784
          LABEL_RECORD_BYTE_def dataset0_def dataset1_def dataset2_def dataset3_def)
  have li: "length (split_images ?s False) = 2" and ll: "length (split_labels ?s False) = 2"
    by (simp_all only: i l) simp_all
  from getData_batches [OF w li ll]
  obtain r where run: "getData' ?s False = (Inr r, ?s)"
    and img: "\<forall>i < 2. take 784 (drop (i * 784) (data (xs r))) = split_images ?s False ! i"
    and shp: "shape (ys r) = [2, 10]"
    and len: "length (data (ys r)) = 2 * 10"
    and row: "\<forall>i < 2. \<forall>label. split_labels ?s False ! i = [label] \<longrightarrow>
            0 \<le> sint label \<longrightarrow> sint label < 10 \<longrightarrow>
              take 10 (drop (i * 10) (data (ys r))) = (replicate 10 0)[nat (sint label) := 1]
              \<and> sum_list (take 10 (drop (i * 10) (data (ys r)))) = 1"
    by blast
  have "(1::nat) < 2" by simp
  with img have "take 784 (drop (1 * 784) (data (xs r))) = split_images ?s False ! 1"
    by blast
  then have i1: "take 784 (drop 784 (data (xs r))) = replicate 784 1"
    by (simp add: i)
  have row': "take 10 (drop (i * 10) (data (ys r))) = (replicate 10 0)[nat (sint label) := 1]"
    if "i < 2" and "split_labels ?s False ! i = [label]" and "0 \<le> sint label" and "sint label < 10"
    for i label
    using row that by blast
  have "take 10 (drop (0 * 10) (data (ys r))) = (replicate 10 0)[nat (sint (3 :: int32)) := 1]"
    by (rule row') (simp_all add: l)
  then have r0: "take 10 (data (ys r)) = [0, 0, 0, 1, 0, 0, 0, 0, 0, 0]"
    by (simp add: unit_row_3)
  have "take 10 (drop (1 * 10) (data (ys r))) = (replicate 10 0)[nat (sint (7 :: int32)) := 1]"
    by (rule row') (simp_all add: l)
  then have r1: "take 10 (drop 10 (data (ys r))) = [0, 0, 0, 0, 0, 0, 0, 1, 0, 0]"
    by (simp add: unit_row_7)
  from len have "length (data (ys r)) = 20" by simp
  then have "data (ys r) = [0, 0, 0, 1, 0, 0, 0, 0, 0, 0] @ [0, 0, 0, 0, 0, 0, 0, 1, 0, 0]"
    using r0 r1 by (rule two_rows)
  with run i1 shp show ?thesis by blast
qed

text \<open>
  C2 as stated covers every loaded dataset. A label file may hold the byte 200; \<open>loadData\<close>
  loads it, and the row of that label is ten zeros: it has no 1 and sums to 0.
\<close>

theorem label_200_counterexample:
  "loadData (fetch_of (example_files [0, 0, 8, 1, 0, 0, 0, 1, 200])) constructor =
     (Inr (), \<lparr>dataset = ([replicate 784 0], [[200]], [], []), trainSize = 1, testSize = 0,
               trainBatchIndex = 0, testBatchIndex = 0\<rparr>)
   \<and> getTrainData \<lparr>dataset = ([replicate 784 0], [[200]], [], []), trainSize = 1, testSize = 0,
               trainBatchIndex = 0, testBatchIndex = 0\<rparr> =
     (Inr \<lparr>xs = \<lparr>shape = [1, 28, 28, 1], data = replicate 784 0\<rparr>,
           ys = \<lparr>shape = [1, 10], data = replicate 10 0\<rparr>\<rparr>,
      \<lparr>dataset = ([replicate 784 0], [[200]], [], []), trainSize = 1, testSize = 0,
               trainBatchIndex = 0, testBatchIndex = 0\<rparr>)
   \<and> sum_list (replicate 10 (0 :: rat)) \<noteq> 1"
proof -
  have row: "one_hot_row 200 = replicate 10 0"
    by (rule one_hot_row_out_of_range) simp
  have load: "loadData (fetch_of (example_files [0, 0, 8, 1, 0, 0, 0, 1, 200])) constructor =
     (Inr (), \<lparr>dataset = ([replicate 784 0], [[200]], [], []), trainSize = 1, testSize = 0,
               trainBatchIndex = 0, testBatchIndex = 0\<rparr>)"
    by (simp add: example_files_load constructor_def int32_of_byte_def)
  have get: "getTrainData \<lparr>dataset = ([replicate 784 0], [[200]], [], []), trainSize = 1,
               testSize = 0, trainBatchIndex = 0, testBatchIndex = 0\<rparr> =
     (Inr \<lparr>xs = \<lparr>shape = [1, 28, 28, 1], data = replicate 784 0\<rparr>,
           ys = \<lparr>shape = [1, 10], data = replicate 10 0\<rparr>\<rparr>,
      \<lparr>dataset = ([replicate 784 0], [[200]], [], []), trainSize = 1, testSize = 0,
               trainBatchIndex = 0, testBatchIndex = 0\<rparr>)"
    using example_state_train [of 200] by (simp only: row)
  have "sum_list (replicate 10 (0 :: rat)) \<noteq> 1"
    by (simp add: sum_list_replicate)
  with load get show ?thesis by (intro conjI)
qed

subsection \<open>The commit of a load\<close>

text \<open>
  C3. If any of the four loads that \<open>loadData\<close> starts fails, whether in the fetch or in the
  decoding, \<open>loadData\<close> fails and leaves the object exactly as it was before the call: the
  four collections, \<open>trainSize\<close>, \<open>testSize\<close> and the batch indices. The object changes
  only when all four loads succeed, and then all four collections and both sizes are the new
  ones: the object after a call is never a mixture.
\<close>

theorem loadData_all_or_nothing:
  "((loadImages fetchResource TRAIN_IMAGES_FILE = Inl e
       \<or> loadLabels fetchResource TRAIN_LABELS_FILE = Inl e
       \<or> loadImages fetchResource TEST_IMAGES_FILE = Inl e
       \<or> loadLabels fetchResource TEST_LABELS_FILE = Inl e)
     \<longrightarrow> (\<exists>e'. loadData fetchResource this = (Inl e', this)))
   \<and> ((\<exists>e'. loadData fetchResource this = (Inl e', this))
      \<or> (\<exists>a b c d. loadImages fetchResource TRAIN_IMAGES_FILE = Inr a
            \<and> loadLabels fetchResource TRAIN_LABELS_FILE = Inr b
            \<and> loadImages fetchResource TEST_IMAGES_FILE = Inr c
            \<and> loadLabels fetchResource TEST_LABELS_FILE = Inr d
            \<and> loadData fetchResource this =
                (Inr (), this\<lparr>dataset := (a, b, c, d), trainSize := length a,
                              testSize := length c\<rparr>)))"
proof (intro conjI impI)
  assume "loadImages fetchResource TRAIN_IMAGES_FILE = Inl e
       \<or> loadLabels fetchResource TRAIN_LABELS_FILE = Inl e
       \<or> loadImages fetchResource TEST_IMAGES_FILE = Inl e
       \<or> loadLabels fetchResource TEST_LABELS_FILE = Inl e"
  then show "\<exists>e'. loadData fetchResource this = (Inl e', this)"
    by (rule loadData_failure)
next
  from loadData_cases [of fetchResource this]
  show "(\<exists>e'. loadData fetchResource this = (Inl e', this))
      \<or> (\<exists>a b c d. loadImages fetchResource TRAIN_IMAGES_FILE = Inr a
            \<and> loadLabels fetchResource TRAIN_LABELS_FILE = Inr b
            \<and> loadImages fetchResource TEST_IMAGES_FILE = Inr c
            \<and> loadLabels fetchResource TEST_LABELS_FILE = Inr d
            \<and> loadData fetchResource this =
                (Inr (), this\<lparr>dataset := (a, b, c, d), trainSize := length a,
                              testSize := length c\<rparr>))"
    by blast
qed

theorem loadData_all_or_nothing_witness:
  "loadData (fetch_of (example_files (replicate 5 0)))
     \<lparr>dataset = ([replicate 784 1], [[5]], [], []), trainSize = 1, testSize = 0,
      trainBatchIndex = 0, testBatchIndex = 0\<rparr>
   = (Inl RangeError,
      \<lparr>dataset = ([replicate 784 1], [[5]], [], []), trainSize = 1, testSize = 0,
       trainBatchIndex = 0, testBatchIndex = 0\<rparr>)"
proof -
  let ?f = "fetch_of (example_files (replicate 5 0))"
  let ?s = "\<lparr>dataset = ([replicate 784 1], [[5 :: int32]], [], []), trainSize = 1, testSize = 0,
      trainBatchIndex = 0, testBatchIndex = 0\<rparr>"
  have "length (replicate 5 0 :: buffer) < LABEL_HEADER_BYTES"
    by (simp add: LABEL_HEADER_BYTES_8)
  with example_files_fetch(2) have labels: "loadLabels ?f TRAIN_LABELS_FILE = Inl RangeError"
    by (rule loadLabels_short)
  with loadData_all_or_nothing [of ?f RangeError ?s]
  obtain e' where run: "loadData ?f ?s = (Inl e', ?s)" by blast
  have "length (replicate 16 0 @ replicate 784 0 :: buffer) = IMAGE_HEADER_BYTES + IMAGE_FLAT_SIZE * 1"
    by (simp add: IMAGE_HEADER_BYTES_16 IMAGE_FLAT_SIZE_784)
  with example_files_fetch(1) have "\<exists>a. loadImages ?f TRAIN_IMAGES_FILE = Inr a"
    using loadImages_run by blast
  with labels have "fst (loadData ?f ?s) = Inl RangeError"
    by (auto simp: loadData_def Promise_all4_def)
  with run show ?thesis by simp
qed

text \<open>
  C7, as amended. When the four loads succeed, \<open>loadData\<close> commits: it stores the four
  collections as decoded and sets \<open>trainSize\<close> and \<open>testSize\<close> to the numbers of decoded
  image records. It does not compare the number of images of a split with its number of
  labels.
\<close>

theorem loadData_commits_image_counts:
  assumes "loadImages fetchResource TRAIN_IMAGES_FILE = Inr a"
    and "loadLabels fetchResource TRAIN_LABELS_FILE = Inr b"
    and "loadImages fetchResource TEST_IMAGES_FILE = Inr c"
    and "loadLabels fetchResource TEST_LABELS_FILE = Inr d"
  shows "\<exists>this'. loadData fetchResource this = (Inr (), this')
           \<and> dataset this' = (a, b, c, d)
           \<and> trainSize this' = length a \<and> testSize this' = length c"
  using loadData_success [OF assms, of this] by simp

theorem loadData_commits_image_counts_witness:
  "\<exists>this'. loadData (fetch_of (example_files [0, 0, 8, 1, 0, 0, 0, 3, 1, 2, 3])) constructor
               = (Inr (), this')
           \<and> length (dataset0 (dataset this')) = 1 \<and> length (dataset1 (dataset this')) = 3
           \<and> trainSize this' = 1 \<and> testSize this' = 0"
proof -
  let ?ls = "[0, 0, 8, 1, 0, 0, 0, 3, 1, 2, 3] :: buffer"
  let ?f = "fetch_of (example_files ?ls)"
  have "length (replicate 16 0 @ replicate 784 0 :: buffer) = IMAGE_HEADER_BYTES + IMAGE_FLAT_SIZE * 1"
    by (simp add: IMAGE_HEADER_BYTES_16 IMAGE_FLAT_SIZE_784)
  with example_files_fetch(1) have "loadImages ?f TRAIN_IMAGES_FILE =
     Inr (map (\<lambda>j. map float32_of_byte
            (take IMAGE_FLAT_SIZE (drop (IMAGE_HEADER_BYTES + IMAGE_FLAT_SIZE * j)
              (replicate 16 0 @ replicate 784 0)))) [0..<1])"
    by (rule loadImages_run)
  then have a: "loadImages ?f TRAIN_IMAGES_FILE = Inr [replicate 784 0]"
    by (simp add: IMAGE_HEADER_BYTES_16 IMAGE_FLAT_SIZE_784 float32_of_byte_0)
  have "LABEL_HEADER_BYTES \<le> length ?ls" by (simp add: LABEL_HEADER_BYTES_8)
  with example_files_fetch(2) have "loadLabels ?f TRAIN_LABELS_FILE =
      Inr (map (\<lambda>b. [int32_of_byte b]) (drop LABEL_HEADER_BYTES ?ls))"
    by (rule loadLabels_run)
  then have b: "loadLabels ?f TRAIN_LABELS_FILE = Inr [[1], [2], [3]]"
    by (simp add: LABEL_HEADER_BYTES_8 int32_of_byte_def)
  have "length (replicate 16 0 :: buffer) = IMAGE_HEADER_BYTES + IMAGE_FLAT_SIZE * 0"
    by (simp add: IMAGE_HEADER_BYTES_16)
  with example_files_fetch(3) have "loadImages ?f TEST_IMAGES_FILE =
     Inr (map (\<lambda>j. map float32_of_byte
            (take IMAGE_FLAT_SIZE (drop (IMAGE_HEADER_BYTES + IMAGE_FLAT_SIZE * j)
              (replicate 16 0)))) [0..<0])"
    by (rule loadImages_run)
  then have c: "loadImages ?f TEST_IMAGES_FILE = Inr []" by simp
  have "LABEL_HEADER_BYTES \<le> length (replicate 8 0 :: buffer)" by (simp add: LABEL_HEADER_BYTES_8)
  with example_files_fetch(4) have "loadLabels ?f TEST_LABELS_FILE =
      Inr (map (\<lambda>b. [int32_of_byte b]) (drop LABEL_HEADER_BYTES (replicate 8 0)))"
    by (rule loadLabels_run)
  then have d: "loadLabels ?f TEST_LABELS_FILE = Inr []"
    by (simp add: LABEL_HEADER_BYTES_8)
  from loadData_commits_image_counts [OF a b c d, of constructor]
  show ?thesis by (auto simp: dataset0_def dataset1_def)
qed

text \<open>
  C7 as stated asks \<open>loadData\<close> to fail when the image count and the label count of a split
  differ. With one train image and two train labels it commits both.
\<close>

theorem count_mismatch_counterexample:
  "loadData (fetch_of (example_files [0, 0, 8, 1, 0, 0, 0, 2, 3, 7])) constructor =
     (Inr (), \<lparr>dataset = ([replicate 784 0], [[3], [7]], [], []), trainSize = 1, testSize = 0,
               trainBatchIndex = 0, testBatchIndex = 0\<rparr>)
   \<and> length [replicate 784 (0 :: float32)] \<noteq> length [[3], [7 :: int32]]"
  by (simp add: example_files_load constructor_def int32_of_byte_def)

subsection \<open>Labels out of range\<close>

text \<open>
  C8, as amended. \<open>getData'\<close> does not check a label against the ten classes. For a
  well-formed object whose selected split holds as many labels as images it returns normally
  whatever the labels are, and the row of a label that is not between 0 and 9 is ten zeros: no
  index is clamped and no error is signalled.
\<close>

theorem getData_no_range_check:
  assumes "well_formed this"
    and "length (split_images this b) = k" and "length (split_labels this b) = k"
  shows "\<exists>r. getData' this b = (Inr r, this)
      \<and> shape (ys r) = [k, 10]
      \<and> (\<forall>i < k. \<forall>label. split_labels this b ! i = [label] \<longrightarrow>
            (sint label < 0 \<or> 10 \<le> sint label) \<longrightarrow>
              take 10 (drop (i * 10) (data (ys r))) = replicate 10 0)"
proof -
  let ?lbls = "split_labels this b"
  let ?rows = "map (\<lambda>l. one_hot_row (hd l)) ?lbls"
  define r where "r = \<lparr>xs = \<lparr>shape = [k, 28, 28, 1], data = concat (split_images this b)\<rparr>,
             ys = \<lparr>shape = [k, 10], data = concat ?rows\<rparr>\<rparr>"
  have sel: "shape (ys r) = [k, 10]" "data (ys r) = concat ?rows"
    by (simp_all add: r_def)
  have wr: "\<forall>r \<in> set ?rows. length r = 10"
    by (simp add: length_one_hot_row LABEL_FLAT_SIZE_def)
  have run: "getData' this b = (Inr r, this)"
    unfolding r_def using assms by (rule getData_rows)
  have "take 10 (drop (i * 10) (data (ys r))) = replicate 10 0"
    if "i < k" and "?lbls ! i = [label]" and "sint label < 0 \<or> 10 \<le> sint label" for i label
  proof -
    have "take 10 (drop (i * 10) (concat ?rows)) = ?rows ! i"
      using wr that(1) assms(3) by (intro row_of_concat) simp_all
    also have "\<dots> = one_hot_row label"
      using that(1,2) assms(3) by simp
    also have "\<dots> = replicate 10 0"
      using that(3) by (rule one_hot_row_out_of_range)
    finally show ?thesis by (simp only: sel)
  qed
  with run sel(1) show ?thesis by blast
qed

theorem getData_no_range_check_witness:
  "\<exists>r. getData' \<lparr>dataset = ([replicate 784 0], [[255]], [], []), trainSize = 1, testSize = 0,
                  trainBatchIndex = 0, testBatchIndex = 0\<rparr> True
        = (Inr r, \<lparr>dataset = ([replicate 784 0], [[255]], [], []), trainSize = 1, testSize = 0,
                  trainBatchIndex = 0, testBatchIndex = 0\<rparr>)
      \<and> data (ys r) = replicate 10 0"
proof -
  let ?s = "\<lparr>dataset = ([replicate 784 0], [[255 :: int32]], [], []), trainSize = 1, testSize = 0,
                  trainBatchIndex = 0, testBatchIndex = 0\<rparr>"
  have l: "split_labels ?s True = [[255]]"
    by (simp add: split_labels_def dataset1_def)
  have li: "length (split_images ?s True) = 1" and ll: "length (split_labels ?s True) = 1"
    by (simp_all add: split_images_def split_labels_def dataset0_def dataset1_def)
  from getData_no_range_check [OF example_state_well_formed li ll]
  obtain r where run: "getData' ?s True = (Inr r, ?s)"
    and row: "\<forall>i < 1. \<forall>label. split_labels ?s True ! i = [label] \<longrightarrow>
            (sint label < 0 \<or> 10 \<le> sint label) \<longrightarrow>
              take 10 (drop (i * 10) (data (ys r))) = replicate 10 0"
    by blast
  have "take 10 (drop (0 * 10) (data (ys r))) = replicate 10 0"
    using row l by simp
  moreover have "length (data (ys r)) = 10"
    using run example_state_train [of 255]
    by (simp add: getTrainData_def length_one_hot_row LABEL_FLAT_SIZE_def)
  ultimately have "data (ys r) = replicate 10 0" by simp
  with run show ?thesis by blast
qed

text \<open>
  C8 as stated asks for an error when a loaded label is 10 or more. A label file with the byte
  10 loads, and \<open>getTrainData\<close> on the loaded object returns a batch whose label row is ten
  zeros.
\<close>

theorem label_10_counterexample:
  "loadData (fetch_of (example_files [0, 0, 8, 1, 0, 0, 0, 1, 10])) constructor =
     (Inr (), \<lparr>dataset = ([replicate 784 0], [[10]], [], []), trainSize = 1, testSize = 0,
               trainBatchIndex = 0, testBatchIndex = 0\<rparr>)
   \<and> getTrainData \<lparr>dataset = ([replicate 784 0], [[10]], [], []), trainSize = 1, testSize = 0,
               trainBatchIndex = 0, testBatchIndex = 0\<rparr> =
     (Inr \<lparr>xs = \<lparr>shape = [1, 28, 28, 1], data = replicate 784 0\<rparr>,
           ys = \<lparr>shape = [1, 10], data = replicate 10 0\<rparr>\<rparr>,
      \<lparr>dataset = ([replicate 784 0], [[10]], [], []), trainSize = 1, testSize = 0,
               trainBatchIndex = 0, testBatchIndex = 0\<rparr>)"
proof -
  have row: "one_hot_row 10 = replicate 10 0"
    by (rule one_hot_row_out_of_range) simp
  have load: "loadData (fetch_of (example_files [0, 0, 8, 1, 0, 0, 0, 1, 10])) constructor =
     (Inr (), \<lparr>dataset = ([replicate 784 0], [[10]], [], []), trainSize = 1, testSize = 0,
               trainBatchIndex = 0, testBatchIndex = 0\<rparr>)"
    by (simp add: example_files_load constructor_def int32_of_byte_def)
  have get: "getTrainData \<lparr>dataset = ([replicate 784 0], [[10]], [], []), trainSize = 1,
               testSize = 0, trainBatchIndex = 0, testBatchIndex = 0\<rparr> =
     (Inr \<lparr>xs = \<lparr>shape = [1, 28, 28, 1], data = replicate 784 0\<rparr>,
           ys = \<lparr>shape = [1, 10], data = replicate 10 0\<rparr>\<rparr>,
      \<lparr>dataset = ([replicate 784 0], [[10]], [], []), trainSize = 1, testSize = 0,
               trainBatchIndex = 0, testBatchIndex = 0\<rparr>)"
    using example_state_train [of 10] by (simp only: row)
  from load get show ?thesis by (intro conjI)
qed

subsection \<open>Reading\<close>

text \<open>
  C9. \<open>getData'\<close>, and so \<open>getTrainData\<close> and \<open>getTestData\<close>, leaves every field of the
  object as it was, and a second call on the same split returns what the first call
  returned.
\<close>

theorem getData_read_only:
  "snd (getData' this b) = this
   \<and> getData' (snd (getData' this b)) b = getData' this b
   \<and> snd (getTrainData this) = this \<and> getTrainData (snd (getTrainData this)) = getTrainData this
   \<and> snd (getTestData this) = this \<and> getTestData (snd (getTestData this)) = getTestData this"
proof -
  have "snd (getData' this b) = this" for b
    by (simp add: getData'_def Let_def)
  then show ?thesis
    by (simp add: getTrainData_def getTestData_def)
qed

text \<open>
  C10. On a freshly constructed object \<open>getTrainData\<close> and \<open>getTestData\<close> do not fail:
  each returns an image tensor of shape \<open>[0, 28, 28, 1]\<close> over an empty buffer and a label
  tensor of shape \<open>[0, 10]\<close> without rows.
\<close>

theorem fresh_dataset_is_empty:
  "getTrainData constructor =
     (Inr \<lparr>xs = \<lparr>shape = [0, 28, 28, 1], data = []\<rparr>, ys = \<lparr>shape = [0, 10], data = []\<rparr>\<rparr>,
      constructor)
   \<and> getTestData constructor =
     (Inr \<lparr>xs = \<lparr>shape = [0, 28, 28, 1], data = []\<rparr>, ys = \<lparr>shape = [0, 10], data = []\<rparr>\<rparr>,
      constructor)"
proof -
  have "getData' constructor b =
    (Inr \<lparr>xs = \<lparr>shape = [0, 28, 28, 1], data = concat (split_images constructor b)\<rparr>,
           ys = \<lparr>shape = [0, 10],
                 data = concat (map (\<lambda>l. one_hot_row (hd l)) (split_labels constructor b))\<rparr>\<rparr>,
     constructor)" for b
    using well_formed_constructor
    by (rule getData_rows)
       (simp_all add: split_images_def split_labels_def constructor_def
          dataset0_def dataset1_def dataset2_def dataset3_def)
  then show ?thesis
    by (simp add: getTrainData_def getTestData_def split_images_def split_labels_def
          constructor_def dataset0_def dataset1_def dataset2_def dataset3_def)
qed

end
